theory Spec2Isabelle
  imports Main "HOL-Library.Multiset"
begin

section \<open>Data model\<close>

text \<open>
  The algorithms of \<^verbatim>\<open>src/algorithm/sorting.ts\<close> work on ranges of iterators.
  A container is the list of its value slots and a position is the index of a slot
  (\<^verbatim>\<open>it.index()\<close>); \<^verbatim>\<open>it.next()\<close> is \<open>i + 1\<close>, \<^verbatim>\<open>it.advance(n)\<close> is \<open>i + n\<close>,
  \<^verbatim>\<open>it.equals(other)\<close> is equality of indices and \<^verbatim>\<open>it.value\<close> is \<open>xs ! i\<close>.
  Every function takes the container and returns the updated one. The iterator
  classes are not part of the sources at hand; reading a slot outside the container is
  left to them, and every theorem below about a range \<open>[first, last')\<close> assumes that
  the range lies inside the container (\<open>last' \<le> length xs\<close>).

  Names that clash with constants of HOL carry a prime: \<open>comp'\<close>, \<open>last'\<close>, \<open>nth'\<close>,
  \<open>min'\<close>, \<open>count'\<close>, \<open>size'\<close>; \<^verbatim>\<open>sort\<close> is \<open>sort_range\<close>.
\<close>

type_synonym 'a comparator = "'a \<Rightarrow> 'a \<Rightarrow> bool"

text \<open>
  Modelled from the spec: \<^verbatim>\<open>iter_swap\<close> of \<^verbatim>\<open>./modifiers\<close> is not among the sources;
  the spec has it "swap values at two positions".
\<close>

definition iter_swap :: "'a list \<Rightarrow> nat \<Rightarrow> nat \<Rightarrow> 'a list" where
  "iter_swap xs x y = xs[x := xs ! y, y := xs ! x]"

text \<open>
  Modelled from the spec: \<^verbatim>\<open>copy\<close> of \<^verbatim>\<open>./modifiers\<close> is not among the sources; the
  spec has it "copy a value range into an output range". The values of the source range
  are written one by one from position \<open>result\<close> on, and the position after the
  last one written is returned.
\<close>

fun copy :: "'a list \<Rightarrow> nat \<Rightarrow> 'a list \<Rightarrow> nat \<times> 'a list" where
  "copy [] result xs = (result, xs)"
| "copy (v # vs) result xs = copy vs (result + 1) (xs[result := v])"

text \<open>
  Modelled from the spec: \<^verbatim>\<open>distance\<close> of \<^verbatim>\<open>../iterator/global\<close> is not among the
  sources; it is the "range-length computation", here the difference of the indices,
  a signed number as in the source.
\<close>

definition distance :: "nat \<Rightarrow> nat \<Rightarrow> int" where
  "distance first last' = int last' - int first"

text \<open>The values of the slots of \<open>[first, last')\<close>, in order.\<close>

definition range_values :: "nat \<Rightarrow> nat \<Rightarrow> 'a list \<Rightarrow> 'a list" where
  "range_values first last' xs = take (last' - first) (drop first xs)"

section \<open>\<^verbatim>\<open>sort\<close>\<close>

text \<open>
  The partition loop of \<^verbatim>\<open>sort\<close>: \<^verbatim>\<open>for (let j = 1; j < size; ++j)\<close>, with the counter
  \<open>i\<close> of the next unfilled low slot. It returns \<open>i\<close> and the container.
\<close>

function sort_scan ::
  "'a comparator \<Rightarrow> 'a \<Rightarrow> nat \<Rightarrow> nat \<Rightarrow> nat \<Rightarrow> nat \<Rightarrow> 'a list \<Rightarrow> nat \<times> 'a list" where
  "sort_scan comp' pivot first size' j i xs =
     (if j < size' then
        (if comp' (xs ! (first + j)) pivot
         then sort_scan comp' pivot first size' (j + 1) (i + 1)
                (iter_swap xs (first + j) (first + i))
         else sort_scan comp' pivot first size' (j + 1) i xs)
      else (i, xs))"
  by pat_completeness auto
termination
  by (relation "measure (\<lambda>(comp', pivot, first, size', j, i, xs). size' - j)") auto

declare sort_scan.simps [simp del]

lemma sort_scan_bounds:
  "sort_scan comp' pivot first size' j i xs = (i', xs') \<Longrightarrow>
     i \<le> i' \<and> i' + j \<le> i + max size' j"
proof (induction comp' pivot first size' j i xs arbitrary: i' xs' rule: sort_scan.induct)
  case (1 comp' pivot first size' j i xs)
  note unfold = sort_scan.simps[of comp' pivot first size' j i xs]
  show ?case
  proof (cases "j < size'")
    case False
    with "1.prems" show ?thesis by (simp add: unfold)
  next
    case True
    show ?thesis
    proof (cases "comp' (xs ! (first + j)) pivot")
      case True
      with \<open>j < size'\<close> "1.prems" "1.IH"(1)[of i' xs'] show ?thesis
        by (simp add: unfold)
    next
      case False
      with \<open>j < size'\<close> "1.prems" "1.IH"(2)[of i' xs'] show ?thesis
        by (simp add: unfold)
    qed
  qed
qed

text \<open>
  \<^verbatim>\<open>sort(first, last, comp)\<close>. \<open>size' = last' - first\<close> is a natural number here: it
  is \<open>0\<close> exactly when the source's difference is \<open>\<le> 0\<close>, the case that returns at once.
\<close>

function sort_range :: "'a comparator \<Rightarrow> nat \<Rightarrow> nat \<Rightarrow> 'a list \<Rightarrow> 'a list" where
  "sort_range comp' first last' xs =
     (let size' = last' - first in
      if size' \<le> 0 then xs
      else
        let pivot_it = first + size' div 2;
            pivot = xs ! pivot_it;
            xs1 = (if pivot_it \<noteq> first then iter_swap xs first pivot_it else xs);
            scanned = sort_scan comp' pivot first size' 1 1 xs1;
            i = fst scanned;
            xs2 = iter_swap (snd scanned) first (first + (i - 1));
            xs3 = sort_range comp' first (first + (i - 1)) xs2
        in sort_range comp' (first + i) last' xs3)"
  by pat_completeness auto
termination
proof (relation "measure (\<lambda>(comp', first, last', xs). last' - first)", goal_cases)
  case 1
  show ?case by simp
next
  case (2 comp' first last' xs size' pivot_it pivot xs1 scanned i xs2)
  obtain i' xs' where s: "sort_scan comp' pivot first size' 1 1 xs1 = (i', xs')"
    by (cases "sort_scan comp' pivot first size' 1 1 xs1")
  from sort_scan_bounds[OF s] 2 s show ?case by auto
next
  case (3 comp' first last' xs size' pivot_it pivot xs1 scanned i xs2 xs3)
  obtain i' xs' where s: "sort_scan comp' pivot first size' 1 1 xs1 = (i', xs')"
    by (cases "sort_scan comp' pivot first size' 1 1 xs1")
  from sort_scan_bounds[OF s] 3 s show ?case by auto
qed

declare sort_range.simps [simp del]

section \<open>\<^verbatim>\<open>stable_sort\<close>\<close>

definition stable_sort :: "'a comparator \<Rightarrow> nat \<Rightarrow> nat \<Rightarrow> 'a list \<Rightarrow> 'a list" where
  "stable_sort comp' first last' xs =
     (let ramda = (\<lambda>x y. comp' x y \<and> \<not> comp' y x)
      in sort_range ramda first last' xs)"

section \<open>\<^verbatim>\<open>partial_sort\<close>\<close>

text \<open>
  The loops of the remaining algorithms run until two positions are equal
  (\<^verbatim>\<open>!i.equals(last)\<close>), so they need not end: they are partial functions, and \<open>None\<close>
  is a loop that does not return.

  The inner loop of \<^verbatim>\<open>partial_sort\<close>, \<^verbatim>\<open>for (let j = i.next(); !j.equals(last); j = j.next())\<close>,
  returns the position \<open>min'\<close>.
\<close>

partial_function (option) partial_sort_min ::
  "'a comparator \<Rightarrow> nat \<Rightarrow> nat \<Rightarrow> nat \<Rightarrow> 'a list \<Rightarrow> nat option" where
  [code]: "partial_sort_min comp' last' j min' xs =
     (if j \<noteq> last' then
        partial_sort_min comp' last' (j + 1)
          (if comp' (xs ! j) (xs ! min') then j else min') xs
      else Some min')"

text \<open>The outer loop, \<^verbatim>\<open>for (let i = first; !i.equals(middle); i = i.next())\<close>.\<close>

partial_function (option) partial_sort_loop ::
  "'a comparator \<Rightarrow> nat \<Rightarrow> nat \<Rightarrow> nat \<Rightarrow> 'a list \<Rightarrow> 'a list option" where
  [code]: "partial_sort_loop comp' middle last' i xs =
     (if i \<noteq> middle then
        (case partial_sort_min comp' last' (i + 1) i xs of
           None \<Rightarrow> None
         | Some min' \<Rightarrow>
             partial_sort_loop comp' middle last' (i + 1)
               (if i \<noteq> min' then iter_swap xs i min' else xs))
      else Some xs)"

definition partial_sort ::
  "'a comparator \<Rightarrow> nat \<Rightarrow> nat \<Rightarrow> nat \<Rightarrow> 'a list \<Rightarrow> 'a list option" where
  "partial_sort comp' first middle last' xs = partial_sort_loop comp' middle last' first xs"

section \<open>\<^verbatim>\<open>partial_sort_copy\<close>\<close>

text \<open>
  The input range and the output range are ranges of one store \<open>xs\<close>: two containers
  are two disjoint intervals of it, and two ranges of the same container may overlap.
  \<^verbatim>\<open>new Vector(first, last)\<close> is the list of the values of the input range, a scratch
  buffer of its own, sorted from its \<^verbatim>\<open>begin()\<close> (index \<open>0\<close>) to its \<^verbatim>\<open>end()\<close>.
  The result is the returned output position and the store.
\<close>

definition partial_sort_copy ::
  "'a comparator \<Rightarrow> nat \<Rightarrow> nat \<Rightarrow> nat \<Rightarrow> nat \<Rightarrow> 'a list \<Rightarrow> nat \<times> 'a list" where
  "partial_sort_copy comp' first last' output_first output_last xs =
     (let input_size = distance first last';
          result_size = distance output_first output_last;
          vector = range_values first last' xs;
          vector = sort_range comp' 0 (length vector) vector
      in if input_size > result_size
         then copy (take (nat result_size) vector) output_first xs
         else copy vector output_first xs)"

section \<open>\<^verbatim>\<open>nth_element\<close>\<close>

text \<open>
  The inner loop of \<^verbatim>\<open>nth_element\<close>, \<^verbatim>\<open>for (let j = first; !j.equals(last); j = j.next())\<close>:
  it returns \<open>count'\<close>, and leaves the loop early (\<^verbatim>\<open>break\<close>) once \<^verbatim>\<open>++count > n\<close>.
\<close>

partial_function (option) nth_element_count ::
  "'a comparator \<Rightarrow> int \<Rightarrow> nat \<Rightarrow> nat \<Rightarrow> nat \<Rightarrow> int \<Rightarrow> 'a list \<Rightarrow> int option" where
  [code]: "nth_element_count comp' n last' i j count' xs =
     (if j \<noteq> last' then
        (if i = j then nth_element_count comp' n last' i (j + 1) count' xs
         else if comp' (xs ! i) (xs ! j) then
           (if count' + 1 > n then Some (count' + 1)
            else nth_element_count comp' n last' i (j + 1) (count' + 1) xs)
         else nth_element_count comp' n last' i (j + 1) count' xs)
      else Some count')"

text \<open>The outer loop, \<^verbatim>\<open>for (let i = first; !i.equals(last); i = i.next())\<close>.\<close>

partial_function (option) nth_element_loop ::
  "'a comparator \<Rightarrow> int \<Rightarrow> nat \<Rightarrow> nat \<Rightarrow> nat \<Rightarrow> nat \<Rightarrow> 'a list \<Rightarrow> 'a list option" where
  [code]: "nth_element_loop comp' n first nth' last' i xs =
     (if i \<noteq> last' then
        (case nth_element_count comp' n last' i first 0 xs of
           None \<Rightarrow> None
         | Some count' \<Rightarrow>
             if count' = n then Some (iter_swap xs nth' i)
             else nth_element_loop comp' n first nth' last' (i + 1) xs)
      else Some xs)"

definition nth_element ::
  "'a comparator \<Rightarrow> nat \<Rightarrow> nat \<Rightarrow> nat \<Rightarrow> 'a list \<Rightarrow> 'a list option" where
  "nth_element comp' first nth' last' xs =
     (let n = distance first nth'
      in nth_element_loop comp' n first nth' last' first xs)"

section \<open>\<^verbatim>\<open>is_sorted\<close> and \<^verbatim>\<open>is_sorted_until\<close>\<close>

text \<open>
  The loop of \<^verbatim>\<open>is_sorted_until\<close>,
  \<^verbatim>\<open>for (let next = first.next(); !next.equals(last); next = next.next())\<close>, in which
  \<^verbatim>\<open>first\<close> follows one position behind \<^verbatim>\<open>next\<close>.
\<close>

partial_function (option) is_sorted_until_loop ::
  "'a comparator \<Rightarrow> nat \<Rightarrow> nat \<Rightarrow> nat \<Rightarrow> 'a list \<Rightarrow> nat option" where
  [code]: "is_sorted_until_loop comp' last' first next' xs =
     (if next' \<noteq> last' then
        (if comp' (xs ! next') (xs ! first) then Some next'
         else is_sorted_until_loop comp' last' (first + 1) (next' + 1) xs)
      else Some last')"

definition is_sorted_until :: "'a comparator \<Rightarrow> nat \<Rightarrow> nat \<Rightarrow> 'a list \<Rightarrow> nat option" where
  "is_sorted_until comp' first last' xs =
     (if first = last' then Some last'
      else is_sorted_until_loop comp' last' first (first + 1) xs)"

definition is_sorted :: "'a comparator \<Rightarrow> nat \<Rightarrow> nat \<Rightarrow> 'a list \<Rightarrow> bool option" where
  "is_sorted comp' first last' xs =
     map_option (\<lambda>r. r = last') (is_sorted_until comp' first last' xs)"

section \<open>Orderings\<close>

text \<open>
  A strict weak ordering: irreflexive, transitive, and with a transitive relation of
  ties (neither element precedes the other).
\<close>

definition strict_weak_order :: "'a comparator \<Rightarrow> bool" where
  "strict_weak_order comp' \<longleftrightarrow>
     (\<forall>x. \<not> comp' x x) \<and>
     (\<forall>x y z. comp' x y \<and> comp' y z \<longrightarrow> comp' x z) \<and>
     (\<forall>x y z. \<not> comp' x y \<and> \<not> comp' y x \<and> \<not> comp' y z \<and> \<not> comp' z y
        \<longrightarrow> \<not> comp' x z \<and> \<not> comp' z x)"

text \<open>Non-decreasing under \<open>comp'\<close>: no later value precedes an earlier one.\<close>

definition not_after :: "'a comparator \<Rightarrow> 'a \<Rightarrow> 'a \<Rightarrow> bool" where
  "not_after comp' earlier later \<longleftrightarrow> \<not> comp' later earlier"

text \<open>Asymmetry, which every strict weak ordering has.\<close>

definition asymmetric :: "'a comparator \<Rightarrow> bool" where
  "asymmetric comp' \<longleftrightarrow> (\<forall>x y. comp' x y \<longrightarrow> \<not> comp' y x)"

text \<open>
  The number of positions \<open>j\<close> of \<open>[first, last')\<close>, other than \<open>i\<close>, whose value the
  value at \<open>i\<close> precedes: the values that come after it in the order.
\<close>

definition count_after :: "'a comparator \<Rightarrow> nat \<Rightarrow> nat \<Rightarrow> nat \<Rightarrow> 'a list \<Rightarrow> int" where
  "count_after comp' first last' i xs =
     int (length (filter (\<lambda>j. j \<noteq> i \<and> comp' (xs ! i) (xs ! j)) [first..<last']))"

text \<open>
  \<open>ys\<close> is \<open>xs\<close> with the values of \<open>[first, last')\<close> rearranged: the same length,
  the same values with the same multiplicities, and every slot outside the range
  unchanged.
\<close>

definition permuted_within :: "nat \<Rightarrow> nat \<Rightarrow> 'a list \<Rightarrow> 'a list \<Rightarrow> bool" where
  "permuted_within first last' xs ys \<longleftrightarrow>
     length ys = length xs \<and> mset ys = mset xs \<and>
     (\<forall>k. k < first \<or> last' \<le> k \<longrightarrow> ys ! k = xs ! k)"

section \<open>Swapping two slots\<close>

lemma iter_swap_length [simp]: "length (iter_swap xs x y) = length xs"
  by (simp add: iter_swap_def)

lemma iter_swap_other: "p \<noteq> x \<Longrightarrow> p \<noteq> y \<Longrightarrow> iter_swap xs x y ! p = xs ! p"
  by (simp add: iter_swap_def)

lemma iter_swap_left: "x < length xs \<Longrightarrow> y < length xs \<Longrightarrow> iter_swap xs x y ! x = xs ! y"
  by (cases "x = y") (simp_all add: iter_swap_def)

lemma iter_swap_right: "y < length xs \<Longrightarrow> iter_swap xs x y ! y = xs ! x"
  by (simp add: iter_swap_def)

lemma iter_swap_same [simp]: "iter_swap xs x x = xs"
  by (simp add: iter_swap_def)

section \<open>The inspectors\<close>

lemma is_sorted_until_loop_result:
  assumes "first < last'"
  shows "\<exists>r. is_sorted_until_loop comp' last' first (first + 1) xs = Some r \<and>
           first < r \<and> r \<le> last' \<and>
           (\<forall>k. first < k \<and> k < r \<longrightarrow> \<not> comp' (xs ! k) (xs ! (k - 1))) \<and>
           (r \<noteq> last' \<longrightarrow> comp' (xs ! r) (xs ! (r - 1)))"
  using assms
proof (induction "last' - first" arbitrary: first)
  case 0
  then show ?case by simp
next
  case (Suc d)
  note unfold = is_sorted_until_loop.simps[of comp' last' first "first + 1" xs]
  show ?case
  proof (cases "first + 1 = last'")
    case True
    then show ?thesis by (subst unfold) auto
  next
    case at_end: False
    show ?thesis
    proof (cases "comp' (xs ! (first + 1)) (xs ! first)")
      case True
      with at_end Suc.prems show ?thesis by (subst unfold) auto
    next
      case False
      from Suc.hyps(2) Suc.prems at_end
      have d: "d = last' - (first + 1)" and lt: "first + 1 < last'"
        by simp_all
      from Suc.hyps(1)[OF d lt] obtain r where
        r: "is_sorted_until_loop comp' last' (first + 1) (first + 1 + 1) xs = Some r"
           "first + 1 < r" "r \<le> last'"
           "\<forall>k. first + 1 < k \<and> k < r \<longrightarrow> \<not> comp' (xs ! k) (xs ! (k - 1))"
           "r \<noteq> last' \<longrightarrow> comp' (xs ! r) (xs ! (r - 1))"
        by blast
      have "\<not> comp' (xs ! k) (xs ! (k - 1))" if "first < k" "k < r" for k
      proof (cases "k = first + 1")
        case True
        with False show ?thesis by simp
      next
        case False
        with that r(4) show ?thesis by simp
      qed
      with r at_end False show ?thesis by (subst unfold) simp
    qed
  qed
qed

text \<open>
  C7: on a range \<open>[first, last')\<close> of the container, \<^verbatim>\<open>is_sorted_until\<close> returns a position \<open>r\<close> of the
  range or \<open>last'\<close>; no position before \<open>r\<close> holds a value that precedes the value of
  its immediate predecessor; when \<open>r\<close> is not \<open>last'\<close>, the value at \<open>r\<close> does precede
  the value at \<open>r - 1\<close>, so \<open>r\<close> is the first violation; on an empty or one-element
  range \<open>r\<close> is \<open>last'\<close>; and \<^verbatim>\<open>is_sorted\<close> returns whether \<open>r\<close> is \<open>last'\<close>.
\<close>

theorem is_sorted_until_first_violation:
  assumes "first \<le> last'" "last' \<le> length xs"
  shows "\<exists>r. is_sorted_until comp' first last' xs = Some r \<and>
           first \<le> r \<and> r \<le> last' \<and>
           (\<forall>k. first < k \<and> k < r \<longrightarrow> \<not> comp' (xs ! k) (xs ! (k - 1))) \<and>
           (r \<noteq> last' \<longrightarrow> first < r \<and> comp' (xs ! r) (xs ! (r - 1))) \<and>
           (last' \<le> first + 1 \<longrightarrow> r = last') \<and>
           is_sorted comp' first last' xs = Some (r = last')"
proof (cases "first = last'")
  case True
  then show ?thesis by (auto simp add: is_sorted_until_def is_sorted_def)
next
  case False
  with assms(1) have "first < last'" by simp
  from is_sorted_until_loop_result[OF this, of comp' xs] obtain r where
    r: "is_sorted_until_loop comp' last' first (first + 1) xs = Some r"
       "first < r" "r \<le> last'"
       "\<forall>k. first < k \<and> k < r \<longrightarrow> \<not> comp' (xs ! k) (xs ! (k - 1))"
       "r \<noteq> last' \<longrightarrow> comp' (xs ! r) (xs ! (r - 1))"
    by blast
  from r(2,3) have "last' \<le> first + 1 \<longrightarrow> r = last'" by simp
  with r False show ?thesis by (simp add: is_sorted_until_def is_sorted_def)
qed

theorem is_sorted_until_first_violation_witness:
  "(0::nat) \<le> 4 \<and> 4 \<le> length [1, 3, 2, 4 :: int] \<and>
   (\<exists>r. is_sorted_until (<) 0 4 [1, 3, 2, 4 :: int] = Some r \<and> r = 2 \<and>
        is_sorted (<) 0 4 [1, 3, 2, 4 :: int] = Some (r = 4))"
proof -
  have h: "(0::nat) \<le> 4" and l: "4 \<le> length [1, 3, 2, 4 :: int]" by simp_all
  have e: "is_sorted_until (<) 0 4 [1, 3, 2, 4 :: int] = Some 2" by code_simp
  from is_sorted_until_first_violation[OF h l, of "(<)"] e
  show ?thesis by simp
qed

section \<open>\<^verbatim>\<open>stable_sort\<close> against \<^verbatim>\<open>sort\<close>\<close>

text \<open>
  C10: for an asymmetric comparator the derived comparator of \<^verbatim>\<open>stable_sort\<close> is the
  comparator itself, and \<^verbatim>\<open>stable_sort\<close> computes what \<^verbatim>\<open>sort\<close> computes.
\<close>

theorem stable_sort_same_as_sort:
  assumes "asymmetric comp'"
  shows "(\<lambda>x y. comp' x y \<and> \<not> comp' y x) = comp' \<and>
         stable_sort comp' first last' xs = sort_range comp' first last' xs"
proof -
  have "(\<lambda>x y. comp' x y \<and> \<not> comp' y x) = comp'"
    using assms unfolding asymmetric_def by (intro ext) blast
  then show ?thesis by (simp add: stable_sort_def)
qed

theorem stable_sort_same_as_sort_witness:
  "asymmetric ((<) :: int comparator) \<and>
   stable_sort (<) 0 6 [5, 3, 8, 1, 9, 2 :: int] = sort_range (<) 0 6 [5, 3, 8, 1, 9, 2]"
proof -
  have a: "asymmetric ((<) :: int comparator)" by (simp add: asymmetric_def)
  from stable_sort_same_as_sort[OF a, of 0 6 "[5, 3, 8, 1, 9, 2]"] a show ?thesis by simp
qed

lemma strict_weak_order_asymmetric: "strict_weak_order comp' \<Longrightarrow> asymmetric comp'"
  unfolding strict_weak_order_def asymmetric_def by blast

lemma strict_weak_order_by_key:
  "strict_weak_order (\<lambda>x y :: nat \<times> nat. fst x < fst y)"
  unfolding strict_weak_order_def by auto

text \<open>
  C3: \<^verbatim>\<open>stable_sort\<close> does not keep tied elements in their original order. The
  comparator orders pairs by their first component; the two pairs are tied, and the
  range comes back with the second pair in front of the first.
\<close>

theorem stable_sort_swaps_ties:
  "stable_sort (\<lambda>x y. fst x < fst y) 0 2 [(1 :: nat, 0 :: nat), (1, 1)] = [(1, 1), (1, 0)]"
  by code_simp

section \<open>What \<^verbatim>\<open>nth_element\<close> does\<close>

text \<open>
  C2: on \<open>[5, 3, 8, 1, 9, 2]\<close> with numeric less-than and \<open>nth'\<close> at index 2,
  \<^verbatim>\<open>nth_element\<close> leaves 5 at position 2, where the sorted range has 3: the candidate
  it picks is the value with exactly two values after it in the order, not before it.
\<close>

theorem nth_element_example:
  "nth_element (<) 0 2 6 [5, 3, 8, 1, 9, 2 :: int] = Some [8, 3, 5, 1, 9, 2] \<and>
   sort_range (<) 0 6 [5, 3, 8, 1, 9, 2 :: int] = [1, 2, 3, 5, 8, 9]"
  by code_simp

lemma nth_element_count_result:
  assumes "j \<le> last'"
  shows "\<exists>r. nth_element_count comp' n last' i j c xs = Some r \<and>
           (r = n \<longleftrightarrow>
            c + int (length (filter (\<lambda>k. k \<noteq> i \<and> comp' (xs ! i) (xs ! k)) [j..<last'])) = n)"
  using assms
proof (induction "last' - j" arbitrary: j c)
  case 0
  then have "j = last'" by simp
  then show ?case by (subst nth_element_count.simps) simp
next
  case (Suc d)
  then have lt: "j < last'" and d: "d = last' - (j + 1)" and le: "j + 1 \<le> last'"
    by simp_all
  note IH = Suc.hyps(1)[OF d le]
  have upt: "[j..<last'] = j # [j + 1..<last']"
    using lt by (simp add: upt_conv_Cons)
  show ?case
  proof (cases "i = j")
    case True
    with IH[of c] lt show ?thesis
      by (subst nth_element_count.simps) (simp add: upt)
  next
    case neq: False
    show ?thesis
    proof (cases "comp' (xs ! i) (xs ! j)")
      case False
      with IH[of c] lt neq show ?thesis
        by (subst nth_element_count.simps) (simp add: upt)
    next
      case True
      show ?thesis
      proof (cases "c + 1 > n")
        case True
        with \<open>comp' (xs ! i) (xs ! j)\<close> lt neq show ?thesis
          by (subst nth_element_count.simps) (auto simp add: upt)
      next
        case False
        with IH[of "c + 1"] \<open>comp' (xs ! i) (xs ! j)\<close> lt neq show ?thesis
          by (subst nth_element_count.simps) (auto simp add: upt)
      qed
    qed
  qed
qed

lemma nth_element_loop_result:
  assumes "first \<le> last'" "i \<le> last'"
  shows "\<exists>ys. nth_element_loop comp' n first nth' last' i xs = Some ys \<and>
           ((ys = xs \<and> (\<forall>k. i \<le> k \<and> k < last' \<longrightarrow> count_after comp' first last' k xs \<noteq> n)) \<or>
            (\<exists>k. i \<le> k \<and> k < last' \<and> count_after comp' first last' k xs = n \<and>
                 (\<forall>k'. i \<le> k' \<and> k' < k \<longrightarrow> count_after comp' first last' k' xs \<noteq> n) \<and>
                 ys = iter_swap xs nth' k))"
  using assms(2)
proof (induction "last' - i" arbitrary: i)
  case 0
  then have "i = last'" by simp
  then show ?case by (subst nth_element_loop.simps) simp
next
  case (Suc d)
  then have lt: "i < last'" and d: "d = last' - (i + 1)" and le: "i + 1 \<le> last'"
    by simp_all
  from nth_element_count_result[OF assms(1), of comp' n i 0 xs] obtain r where
    r: "nth_element_count comp' n last' i first 0 xs = Some r"
       "r = n \<longleftrightarrow> count_after comp' first last' i xs = n"
    by (auto simp add: count_after_def)
  show ?case
  proof (cases "r = n")
    case True
    with r lt have "nth_element_loop comp' n first nth' last' i xs = Some (iter_swap xs nth' i)"
      by (subst nth_element_loop.simps) simp
    moreover from True r have "count_after comp' first last' i xs = n" by simp
    ultimately show ?thesis using lt by auto
  next
    case False
    with r lt have step: "nth_element_loop comp' n first nth' last' i xs =
        nth_element_loop comp' n first nth' last' (i + 1) xs"
      by (subst nth_element_loop.simps) simp
    from False r have here: "count_after comp' first last' i xs \<noteq> n" by simp
    from Suc.hyps(1)[OF d le] obtain ys where
      ys: "nth_element_loop comp' n first nth' last' (i + 1) xs = Some ys"
      and alt: "(ys = xs \<and> (\<forall>k. i + 1 \<le> k \<and> k < last' \<longrightarrow> count_after comp' first last' k xs \<noteq> n)) \<or>
            (\<exists>k. i + 1 \<le> k \<and> k < last' \<and> count_after comp' first last' k xs = n \<and>
                 (\<forall>k'. i + 1 \<le> k' \<and> k' < k \<longrightarrow> count_after comp' first last' k' xs \<noteq> n) \<and>
                 ys = iter_swap xs nth' k)"
      by blast
    have below: "count_after comp' first last' k xs \<noteq> n"
      if "i \<le> k" "\<forall>k'. i + 1 \<le> k' \<and> k' < m \<longrightarrow> count_after comp' first last' k' xs \<noteq> n" "k < m" for k m
    proof (cases "k = i")
      case True
      with here show ?thesis by simp
    next
      case False
      with that show ?thesis by simp
    qed
    from alt show ?thesis
    proof
      assume a: "ys = xs \<and> (\<forall>k. i + 1 \<le> k \<and> k < last' \<longrightarrow> count_after comp' first last' k xs \<noteq> n)"
      then have "\<forall>k. i \<le> k \<and> k < last' \<longrightarrow> count_after comp' first last' k xs \<noteq> n"
        using below[of _ last'] by blast
      with a ys step show ?thesis by simp
    next
      assume "\<exists>k. i + 1 \<le> k \<and> k < last' \<and> count_after comp' first last' k xs = n \<and>
                 (\<forall>k'. i + 1 \<le> k' \<and> k' < k \<longrightarrow> count_after comp' first last' k' xs \<noteq> n) \<and>
                 ys = iter_swap xs nth' k"
      then obtain k where k: "i + 1 \<le> k" "k < last'" "count_after comp' first last' k xs = n"
        "\<forall>k'. i + 1 \<le> k' \<and> k' < k \<longrightarrow> count_after comp' first last' k' xs \<noteq> n"
        "ys = iter_swap xs nth' k"
        by blast
      from k(4) have "\<forall>k'. i \<le> k' \<and> k' < k \<longrightarrow> count_after comp' first last' k' xs \<noteq> n"
        using below[of _ k] by blast
      moreover from k(1) have "i \<le> k" by simp
      ultimately have "\<exists>k. i \<le> k \<and> k < last' \<and> count_after comp' first last' k xs = n \<and>
                 (\<forall>k'. i \<le> k' \<and> k' < k \<longrightarrow> count_after comp' first last' k' xs \<noteq> n) \<and>
                 ys = iter_swap xs nth' k"
        using k(2,3,5) by blast
      moreover from ys step have "nth_element_loop comp' n first nth' last' i xs = Some ys"
        by simp
      ultimately show ?thesis by blast
    qed
  qed
qed

lemma count_after_bounds:
  assumes "first \<le> k" "k < last'"
  shows "0 \<le> count_after comp' first last' k xs"
    and "count_after comp' first last' k xs < int (last' - first)"
proof -
  let ?P = "\<lambda>j. j \<noteq> k \<and> comp' (xs ! k) (xs ! j)"
  show "0 \<le> count_after comp' first last' k xs" by (simp add: count_after_def)
  from assms have "k \<in> set (filter (\<lambda>j. \<not> ?P j) [first..<last'])" by simp
  then have "0 < length (filter (\<lambda>j. \<not> ?P j) [first..<last'])"
    by (rule length_pos_if_in_set)
  moreover have "length (filter ?P [first..<last']) +
      length (filter (\<lambda>j. \<not> ?P j) [first..<last']) = last' - first"
    using sum_length_filter_compl[of ?P "[first..<last']"] by simp
  ultimately have "length (filter ?P [first..<last']) < last' - first" by linarith
  then show "count_after comp' first last' k xs < int (last' - first)"
    by (simp add: count_after_def)
qed

text \<open>
  C9: on a range \<open>[first, last')\<close> of the container, \<^verbatim>\<open>nth_element\<close> returns, and the
  container it returns is either the one it was given, when no position of the range has
  exactly \<open>distance first nth'\<close> values after its own in the order, or the given one
  with the values at \<open>nth'\<close>, then a position of the range, and at one such position
  \<open>k\<close> exchanged: every other position keeps its value.
\<close>

theorem nth_element_at_most_one_swap:
  assumes "first \<le> last'" "last' \<le> length xs"
  shows "\<exists>ys. nth_element comp' first nth' last' xs = Some ys \<and>
           ((ys = xs \<and>
             (\<forall>k. first \<le> k \<and> k < last' \<longrightarrow>
                  count_after comp' first last' k xs \<noteq> distance first nth')) \<or>
            (\<exists>k. first \<le> k \<and> k < last' \<and>
                 count_after comp' first last' k xs = distance first nth' \<and>
                 first \<le> nth' \<and> nth' < last' \<and>
                 ys = iter_swap xs nth' k \<and> length ys = length xs \<and>
                 (\<forall>p. p \<noteq> nth' \<and> p \<noteq> k \<longrightarrow> ys ! p = xs ! p) \<and>
                 ys ! nth' = xs ! k \<and> ys ! k = xs ! nth'))"
proof -
  from nth_element_loop_result[OF assms(1) assms(1), of comp' "distance first nth'" nth' xs]
  obtain ys where ys: "nth_element comp' first nth' last' xs = Some ys"
    and alt: "(ys = xs \<and> (\<forall>k. first \<le> k \<and> k < last' \<longrightarrow>
                  count_after comp' first last' k xs \<noteq> distance first nth')) \<or>
            (\<exists>k. first \<le> k \<and> k < last' \<and> count_after comp' first last' k xs = distance first nth' \<and>
                 (\<forall>k'. first \<le> k' \<and> k' < k \<longrightarrow> count_after comp' first last' k' xs \<noteq> distance first nth') \<and>
                 ys = iter_swap xs nth' k)"
    unfolding nth_element_def Let_def by blast
  from alt show ?thesis
  proof
    assume "ys = xs \<and> (\<forall>k. first \<le> k \<and> k < last' \<longrightarrow>
                  count_after comp' first last' k xs \<noteq> distance first nth')"
    with ys show ?thesis by blast
  next
    assume "\<exists>k. first \<le> k \<and> k < last' \<and> count_after comp' first last' k xs = distance first nth' \<and>
                 (\<forall>k'. first \<le> k' \<and> k' < k \<longrightarrow> count_after comp' first last' k' xs \<noteq> distance first nth') \<and>
                 ys = iter_swap xs nth' k"
    then obtain k where k: "first \<le> k" "k < last'"
      "count_after comp' first last' k xs = distance first nth'" "ys = iter_swap xs nth' k"
      by blast
    from count_after_bounds[OF k(1,2), of comp' xs] k(3)
    have "0 \<le> distance first nth'" "distance first nth' < int (last' - first)" by simp_all
    with assms(1) have n: "first \<le> nth'" "nth' < last'"
      by (simp_all add: distance_def)
    from k(2) n(2) assms(2) have kl: "k < length xs" and nl: "nth' < length xs" by simp_all
    have "length ys = length xs" using k(4) by simp
    moreover have "\<forall>p. p \<noteq> nth' \<and> p \<noteq> k \<longrightarrow> ys ! p = xs ! p"
      using k(4) by (simp add: iter_swap_other)
    moreover have "ys ! nth' = xs ! k \<and> ys ! k = xs ! nth'"
      using k(4) kl nl by (simp add: iter_swap_left iter_swap_right)
    ultimately show ?thesis using ys k n by blast
  qed
qed

theorem nth_element_at_most_one_swap_witness:
  "(0::nat) \<le> 6 \<and> 6 \<le> length [5, 3, 8, 1, 9, 2 :: int] \<and>
   (\<exists>ys k. nth_element (<) 0 2 6 [5, 3, 8, 1, 9, 2 :: int] = Some ys \<and>
      (ys = [5, 3, 8, 1, 9, 2] \<or> ys = iter_swap [5, 3, 8, 1, 9, 2] 2 k))"
proof -
  have h1: "(0::nat) \<le> 6" and h2: "6 \<le> length [5, 3, 8, 1, 9, 2 :: int]" by simp_all
  from nth_element_at_most_one_swap[OF h1 h2, of "(<)" 2] h1 h2 show ?thesis by blast
qed

section \<open>Termination\<close>

lemma partial_sort_min_result:
  assumes "j \<le> last'" "lo \<le> min'" "min' < j"
  shows "\<exists>m. partial_sort_min comp' last' j min' xs = Some m \<and> lo \<le> m \<and> m < last'"
  using assms
proof (induction "last' - j" arbitrary: j min')
  case 0
  then have "j = last'" by simp
  with 0 show ?case by (subst partial_sort_min.simps) simp
next
  case (Suc d)
  then have lt: "j < last'" and d: "d = last' - (j + 1)" and le: "j + 1 \<le> last'"
    by simp_all
  let ?m = "if comp' (xs ! j) (xs ! min') then j else min'"
  from Suc.prems have "lo \<le> ?m" "?m < j + 1" by auto
  from Suc.hyps(1)[OF d le this] lt show ?case
    by (subst partial_sort_min.simps) simp
qed

lemma partial_sort_loop_returns:
  assumes "i \<le> middle" "middle \<le> last'"
  shows "\<exists>ys. partial_sort_loop comp' middle last' i xs = Some ys"
  using assms(1)
proof (induction "middle - i" arbitrary: i xs)
  case 0
  then have "i = middle" by simp
  then show ?case by (subst partial_sort_loop.simps) simp
next
  case (Suc d)
  then have lt: "i < middle" and d: "d = middle - (i + 1)" and le: "i + 1 \<le> middle"
    by simp_all
  from lt assms(2) have "i + 1 \<le> last'" by simp
  from partial_sort_min_result[OF this, of i i comp' xs] obtain m where
    m: "partial_sort_min comp' last' (i + 1) i xs = Some m" by auto
  from Suc.hyps(1)[OF d le, of "if i \<noteq> m then iter_swap xs i m else xs"] m lt show ?case
    by (subst partial_sort_loop.simps) simp
qed

text \<open>
  C8: on a range of the container with \<open>first \<le> middle \<le> last'\<close> (the last position
  is reached from the first by advancing) \<^verbatim>\<open>partial_sort\<close>, \<^verbatim>\<open>nth_element\<close>, \<^verbatim>\<open>is_sorted_until\<close> and
  \<^verbatim>\<open>is_sorted\<close> return. \<^verbatim>\<open>sort\<close> and \<^verbatim>\<open>partial_sort_copy\<close> are total functions: the
  recursion of \<^verbatim>\<open>sort\<close> is on the two ranges \<open>[first, first + (i - 1))\<close> and
  \<open>[first + i, last')\<close>, each strictly shorter than \<open>[first, last')\<close> whatever the pivot
  and the container are, and \<^verbatim>\<open>sort\<close> leaves a range of at most one element as it is.
\<close>

theorem algorithms_terminate:
  assumes "first \<le> middle" "middle \<le> last'" "last' \<le> length xs"
  shows "partial_sort comp' first middle last' xs \<noteq> None \<and>
         nth_element comp' first nth' last' xs \<noteq> None \<and>
         is_sorted_until comp' first last' xs \<noteq> None \<and>
         is_sorted comp' first last' xs \<noteq> None \<and>
         (first < last' \<longrightarrow>
            (\<forall>pivot zs. let i = fst (sort_scan comp' pivot first (last' - first) 1 1 zs)
                        in first + (i - 1) - first < last' - first \<and>
                           last' - (first + i) < last' - first)) \<and>
         (last' \<le> first + 1 \<longrightarrow> sort_range comp' first last' xs = xs)"
proof -
  from assms(1,2) have fl: "first \<le> last'" by simp
  from partial_sort_loop_returns[OF assms(1,2), of comp' xs]
  have 1: "partial_sort comp' first middle last' xs \<noteq> None"
    by (auto simp add: partial_sort_def)
  from nth_element_loop_result[OF fl fl, of comp' "distance first nth'" nth' xs]
  have 2: "nth_element comp' first nth' last' xs \<noteq> None"
    by (auto simp add: nth_element_def)
  have 3: "is_sorted_until comp' first last' xs \<noteq> None"
  proof (cases "first = last'")
    case True
    then show ?thesis by (simp add: is_sorted_until_def)
  next
    case False
    with fl have "first < last'" by simp
    from is_sorted_until_loop_result[OF this, of comp' xs] False show ?thesis
      by (auto simp add: is_sorted_until_def)
  qed
  from 3 have 4: "is_sorted comp' first last' xs \<noteq> None"
    by (simp add: is_sorted_def)
  have 5: "first + (fst (sort_scan comp' pivot first (last' - first) 1 1 zs) - 1) - first < last' - first \<and>
           last' - (first + fst (sort_scan comp' pivot first (last' - first) 1 1 zs)) < last' - first"
    if "first < last'" for pivot zs
  proof -
    obtain i ys where s: "sort_scan comp' pivot first (last' - first) 1 1 zs = (i, ys)"
      by (cases "sort_scan comp' pivot first (last' - first) 1 1 zs")
    from sort_scan_bounds[OF s] that s show ?thesis by auto
  qed
  have 6: "sort_range comp' first last' xs = xs" if "last' \<le> first + 1"
  proof (cases "last' \<le> first")
    case True
    then show ?thesis by (subst sort_range.simps) simp
  next
    case False
    with that have l: "last' = first + 1" by simp
    have s: "sort_scan comp' p first (Suc 0) (Suc 0) (Suc 0) ys = (Suc 0, ys)" for p ys
      by (subst sort_scan.simps) simp
    have e: "sort_range comp' a a ys = ys" for a ys
      by (subst sort_range.simps) simp
    show ?thesis
      by (subst sort_range.simps) (simp add: l Let_def s e)
  qed
  from 1 2 3 4 5 6 show ?thesis by (simp add: Let_def)
qed

theorem algorithms_terminate_witness:
  "(0::nat) \<le> 3 \<and> (3::nat) \<le> 6 \<and> 6 \<le> length [5, 3, 8, 1, 9, 2 :: int] \<and>
   partial_sort (<) 0 3 6 [5, 3, 8, 1, 9, 2 :: int] \<noteq> None \<and>
   nth_element (<) 0 2 6 [5, 3, 8, 1, 9, 2 :: int] \<noteq> None \<and>
   is_sorted_until (<) 0 6 [5, 3, 8, 1, 9, 2 :: int] \<noteq> None \<and>
   is_sorted (<) 0 6 [5, 3, 8, 1, 9, 2 :: int] \<noteq> None \<and>
   (let i = fst (sort_scan (<) 8 0 (6 - 0) 1 1 [8, 3, 5, 1, 9, 2 :: int])
    in 0 + (i - 1) - 0 < (6::nat) - 0 \<and> 6 - (0 + i) < (6::nat) - 0) \<and>
   (2::nat) \<le> 2 \<and> (2::nat) \<le> 3 \<and> 3 \<le> length [5, 3, 8, 1, 9, 2 :: int] \<and>
   sort_range (<) 2 3 [5, 3, 8, 1, 9, 2 :: int] = [5, 3, 8, 1, 9, 2]"
proof -
  have h1: "(0::nat) \<le> 3" and h2: "(3::nat) \<le> 6" by simp_all
  have h3: "(2::nat) \<le> 2" and h4: "(2::nat) \<le> 3" by simp_all
  have h5: "(0::nat) < 6" and h6: "(3::nat) \<le> 2 + 1" by simp_all
  have l1: "6 \<le> length [5, 3, 8, 1, 9, 2 :: int]"
    and l2: "3 \<le> length [5, 3, 8, 1, 9, 2 :: int]" by simp_all
  note a = algorithms_terminate[OF h1 h2 l1, of "(<)" 2]
  note b = algorithms_terminate[OF h3 h4 l2, of "(<)" 2]
  from a h5 have "let i = fst (sort_scan (<) 8 0 (6 - 0) 1 1 [8, 3, 5, 1, 9, 2 :: int])
    in 0 + (i - 1) - 0 < (6::nat) - 0 \<and> 6 - (0 + i) < (6::nat) - 0"
    by blast
  moreover from b h6 have "sort_range (<) 2 3 [5, 3, 8, 1, 9, 2 :: int] = [5, 3, 8, 1, 9, 2]"
    by blast
  ultimately show ?thesis using a h1 h2 h3 h4 l1 l2 by blast
qed

section \<open>Ranges and rearrangements\<close>

lemma length_range_values:
  "last' \<le> length xs \<Longrightarrow> length (range_values first last' xs) = last' - first"
  by (simp add: range_values_def)

lemma nth_range_values:
  "k < last' - first \<Longrightarrow> last' \<le> length xs \<Longrightarrow> range_values first last' xs ! k = xs ! (first + k)"
  by (simp add: range_values_def)

lemma range_values_empty [simp]: "last' \<le> first \<Longrightarrow> range_values first last' xs = []"
  by (simp add: range_values_def)

lemma set_range_values:
  assumes "last' \<le> length xs"
  shows "set (range_values first last' xs) = {xs ! k | k. first \<le> k \<and> k < last'}"
proof (intro set_eqI iffI)
  fix x assume "x \<in> set (range_values first last' xs)"
  then obtain k where "k < length (range_values first last' xs)" "x = range_values first last' xs ! k"
    by (auto simp add: in_set_conv_nth)
  with assms have "x = xs ! (first + k) \<and> first \<le> first + k \<and> first + k < last'"
    by (simp add: length_range_values nth_range_values)
  then show "x \<in> {xs ! k | k. first \<le> k \<and> k < last'}" by blast
next
  fix x assume "x \<in> {xs ! k | k. first \<le> k \<and> k < last'}"
  then obtain k where k: "x = xs ! k" "first \<le> k" "k < last'" by blast
  with assms have "k - first < length (range_values first last' xs)"
    and "range_values first last' xs ! (k - first) = x"
    by (simp_all add: length_range_values nth_range_values)
  then show "x \<in> set (range_values first last' xs)"
    by (auto simp add: in_set_conv_nth)
qed

lemma range_values_agree:
  assumes "\<forall>k. first \<le> k \<and> k < last' \<longrightarrow> ys ! k = xs ! k"
    and "last' \<le> length xs" "last' \<le> length ys"
  shows "range_values first last' ys = range_values first last' xs"
proof (rule nth_equalityI)
  show "length (range_values first last' ys) = length (range_values first last' xs)"
    using assms(2,3) by (simp add: length_range_values)
next
  fix k assume "k < length (range_values first last' ys)"
  with assms(3) have k: "k < last' - first" by (simp add: length_range_values)
  then have "ys ! (first + k) = xs ! (first + k)" using assms(1) by simp
  with k assms(2,3) show "range_values first last' ys ! k = range_values first last' xs ! k"
    by (simp add: nth_range_values)
qed

lemma range_values_split:
  assumes "first \<le> p" "p \<le> last'"
  shows "range_values first last' xs = range_values first p xs @ range_values p last' xs"
proof -
  from assms have "last' - first = (p - first) + (last' - p)" by simp
  then have "take (last' - first) (drop first xs) =
      take (p - first) (drop first xs) @ take (last' - p) (drop (p - first) (drop first xs))"
    by (simp only: take_add)
  with assms show ?thesis by (simp add: range_values_def)
qed

lemma range_values_single:
  "p < length xs \<Longrightarrow> range_values p (p + 1) xs = [xs ! p]"
  by (simp add: range_values_def take_Suc_conv_app_nth)

lemma range_values_pivot:
  assumes "first \<le> p" "p < last'" "last' \<le> length xs"
  shows "range_values first last' xs =
         range_values first p xs @ xs ! p # range_values (p + 1) last' xs"
proof -
  from assms have "range_values first last' xs = range_values first p xs @ range_values p last' xs"
    by (intro range_values_split) simp_all
  also from assms have "range_values p last' xs = range_values p (p + 1) xs @ range_values (p + 1) last' xs"
    by (intro range_values_split) simp_all
  also from assms have "range_values p (p + 1) xs = [xs ! p]"
    by (intro range_values_single) simp
  finally show ?thesis by simp
qed

lemma range_values_whole:
  assumes "first \<le> last'" "last' \<le> length xs"
  shows "xs = take first xs @ range_values first last' xs @ drop last' xs"
proof -
  have "drop first xs = take (last' - first) (drop first xs) @ drop (last' - first) (drop first xs)"
    by (simp only: append_take_drop_id)
  moreover from assms have "last' - first + first = last'" by simp
  ultimately have "drop first xs = range_values first last' xs @ drop last' xs"
    by (simp add: range_values_def)
  then have "take first xs @ drop first xs = take first xs @ range_values first last' xs @ drop last' xs"
    by simp
  then show ?thesis by simp
qed

lemma permuted_within_refl [simp]: "permuted_within first last' xs xs"
  by (simp add: permuted_within_def)

lemma permuted_within_trans:
  "permuted_within first last' xs ys \<Longrightarrow> permuted_within first last' ys zs \<Longrightarrow>
   permuted_within first last' xs zs"
  by (simp add: permuted_within_def)

lemma permuted_within_widen:
  "permuted_within a b xs ys \<Longrightarrow> first \<le> a \<Longrightarrow> b \<le> last' \<Longrightarrow>
   permuted_within first last' xs ys"
  by (auto simp add: permuted_within_def)

lemma permuted_within_length: "permuted_within first last' xs ys \<Longrightarrow> length ys = length xs"
  by (simp add: permuted_within_def)

lemma permuted_within_outside:
  "permuted_within first last' xs ys \<Longrightarrow> k < first \<or> last' \<le> k \<Longrightarrow> ys ! k = xs ! k"
  by (auto simp add: permuted_within_def)

lemma permuted_within_swap:
  assumes "first \<le> x" "x < last'" "first \<le> y" "y < last'" "last' \<le> length xs"
  shows "permuted_within first last' xs (iter_swap xs x y)"
proof -
  from assms have "x < length xs" "y < length xs" by simp_all
  then have "mset (iter_swap xs x y) = mset xs"
    by (simp add: iter_swap_def mset_swap)
  moreover have "\<forall>k. k < first \<or> last' \<le> k \<longrightarrow> iter_swap xs x y ! k = xs ! k"
    using assms by (auto simp add: iter_swap_other)
  ultimately show ?thesis by (simp add: permuted_within_def)
qed

lemma permuted_within_mset:
  assumes "permuted_within first last' xs ys" "first \<le> last'" "last' \<le> length xs"
  shows "mset (range_values first last' ys) = mset (range_values first last' xs)"
proof -
  from assms(1) have len: "length ys = length xs" and ms: "mset ys = mset xs"
    and out: "\<forall>k. k < first \<or> last' \<le> k \<longrightarrow> ys ! k = xs ! k"
    by (simp_all add: permuted_within_def)
  have t: "take first ys = take first xs"
    using len out assms(2,3) by (intro nth_equalityI) simp_all
  have d: "drop last' ys = drop last' xs"
    using len out assms(2,3) by (intro nth_equalityI) simp_all
  from range_values_whole[OF assms(2,3)]
  have "mset xs = mset (take first xs) + mset (range_values first last' xs) + mset (drop last' xs)"
    by (metis mset_append add.assoc)
  moreover from range_values_whole[OF assms(2), of ys] assms(3) len
  have "mset ys = mset (take first ys) + mset (range_values first last' ys) + mset (drop last' ys)"
    by (metis mset_append add.assoc)
  ultimately show ?thesis using ms t d by simp
qed

lemma permuted_within_set:
  assumes "permuted_within first last' xs ys" "first \<le> last'" "last' \<le> length xs"
  shows "set (range_values first last' ys) = set (range_values first last' xs)"
  using permuted_within_mset[OF assms] by (rule mset_eq_setD)

lemma sorted_around_pivot:
  assumes irr: "\<forall>x. \<not> comp' x x"
    and tr: "\<forall>x y z. comp' x y \<and> comp' y z \<longrightarrow> comp' x z"
    and "sorted_wrt (not_after comp') ls" "sorted_wrt (not_after comp') rs"
    and low: "\<forall>a\<in>set ls. comp' a pivot" and high: "\<forall>b\<in>set rs. \<not> comp' b pivot"
  shows "sorted_wrt (not_after comp') (ls @ pivot # rs)"
proof -
  have "not_after comp' a pivot" if "a \<in> set ls" for a
    using that low irr tr unfolding not_after_def by blast
  moreover have "not_after comp' pivot b" if "b \<in> set rs" for b
    using that high unfolding not_after_def by blast
  moreover have "not_after comp' a b" if "a \<in> set ls" "b \<in> set rs" for a b
    using that low high tr unfolding not_after_def by blast
  ultimately show ?thesis using assms(3,4) by (auto simp add: sorted_wrt_append)
qed

section \<open>Correctness of \<^verbatim>\<open>sort\<close>\<close>

lemma sort_scan_partitions:
  assumes "sort_scan comp' pivot first size' j i xs = (i', xs')"
    and "1 \<le> i" "i \<le> j" "j \<le> size'" "first + size' \<le> length xs"
    and "\<forall>k. 1 \<le> k \<and> k < i \<longrightarrow> comp' (xs ! (first + k)) pivot"
    and "\<forall>k. i \<le> k \<and> k < j \<longrightarrow> \<not> comp' (xs ! (first + k)) pivot"
  shows "permuted_within (first + 1) (first + size') xs xs' \<and> i \<le> i' \<and> i' \<le> size' \<and>
         (\<forall>k. 1 \<le> k \<and> k < i' \<longrightarrow> comp' (xs' ! (first + k)) pivot) \<and>
         (\<forall>k. i' \<le> k \<and> k < size' \<longrightarrow> \<not> comp' (xs' ! (first + k)) pivot)"
  using assms
proof (induction comp' pivot first size' j i xs arbitrary: i' xs' rule: sort_scan.induct)
  case (1 comp' pivot first size' j i xs)
  note unfold = sort_scan.simps[of comp' pivot first size' j i xs]
  show ?case
  proof (cases "j < size'")
    case False
    with "1.prems"(1) have res: "i' = i" "xs' = xs" by (simp_all add: unfold)
    from False "1.prems"(4) have "j = size'" by simp
    with res "1.prems"(2-7) show ?thesis by simp
  next
    case lt: True
    show ?thesis
    proof (cases "comp' (xs ! (first + j)) pivot")
      case False
      with lt "1.prems"(1)
      have run: "sort_scan comp' pivot first size' (j + 1) i xs = (i', xs')"
        by (simp add: unfold)
      have high: "\<forall>k. i \<le> k \<and> k < j + 1 \<longrightarrow> \<not> comp' (xs ! (first + k)) pivot"
      proof (intro allI impI)
        fix k assume "i \<le> k \<and> k < j + 1"
        then consider "k = j" | "i \<le> k \<and> k < j" by force
        then show "\<not> comp' (xs ! (first + k)) pivot"
          using False "1.prems"(7) by cases simp_all
      qed
      from "1.IH"(2)[OF lt False run "1.prems"(2) _ _ "1.prems"(5,6) high] lt "1.prems"(3)
      show ?thesis by simp
    next
      case True
      let ?ys = "iter_swap xs (first + j) (first + i)"
      from lt True "1.prems"(1)
      have run: "sort_scan comp' pivot first size' (j + 1) (i + 1) ?ys = (i', xs')"
        by (simp add: unfold)
      from lt "1.prems"(3,5) have jl: "first + j < length xs" and il: "first + i < length xs"
        by simp_all
      have low: "\<forall>k. 1 \<le> k \<and> k < i + 1 \<longrightarrow> comp' (?ys ! (first + k)) pivot"
      proof (intro allI impI)
        fix k assume k: "1 \<le> k \<and> k < i + 1"
        then consider "k = i" | "1 \<le> k \<and> k < i" by force
        then show "comp' (?ys ! (first + k)) pivot"
        proof cases
          case 1
          with True jl il show ?thesis by (simp add: iter_swap_right)
        next
          case 2
          with "1.prems"(3) have "first + k \<noteq> first + j" "first + k \<noteq> first + i" by simp_all
          with 2 "1.prems"(6) show ?thesis by (simp add: iter_swap_other)
        qed
      qed
      have high: "\<forall>k. i + 1 \<le> k \<and> k < j + 1 \<longrightarrow> \<not> comp' (?ys ! (first + k)) pivot"
      proof (intro allI impI)
        fix k assume k: "i + 1 \<le> k \<and> k < j + 1"
        then consider "k = j" | "i + 1 \<le> k \<and> k < j" by force
        then show "\<not> comp' (?ys ! (first + k)) pivot"
        proof cases
          case 1
          with k have "i < j" by simp
          with "1.prems"(7) have "\<not> comp' (xs ! (first + i)) pivot" by simp
          with 1 jl il show ?thesis by (simp add: iter_swap_left)
        next
          case 2
          then have "first + k \<noteq> first + j" "first + k \<noteq> first + i" by simp_all
          with 2 "1.prems"(7) show ?thesis by (simp add: iter_swap_other)
        qed
      qed
      have len: "first + size' \<le> length ?ys" using "1.prems"(5) by simp
      from "1.IH"(1)[OF lt True run _ _ _ len low high] lt "1.prems"(2,3)
      have rest: "permuted_within (first + 1) (first + size') ?ys xs' \<and> i + 1 \<le> i' \<and> i' \<le> size' \<and>
         (\<forall>k. 1 \<le> k \<and> k < i' \<longrightarrow> comp' (xs' ! (first + k)) pivot) \<and>
         (\<forall>k. i' \<le> k \<and> k < size' \<longrightarrow> \<not> comp' (xs' ! (first + k)) pivot)"
        by simp
      from lt "1.prems"(2,3,5)
      have "permuted_within (first + 1) (first + size') xs ?ys"
        by (intro permuted_within_swap) simp_all
      with rest have "permuted_within (first + 1) (first + size') xs xs'"
        by (blast intro: permuted_within_trans)
      with rest show ?thesis by simp
    qed
  qed
qed

lemma sort_range_sorts:
  "(\<forall>x. \<not> comp' x x) \<Longrightarrow> (\<forall>x y z. comp' x y \<and> comp' y z \<longrightarrow> comp' x z) \<Longrightarrow>
   last' \<le> length xs \<Longrightarrow>
     permuted_within first last' xs (sort_range comp' first last' xs) \<and>
     sorted_wrt (not_after comp') (range_values first last' (sort_range comp' first last' xs))"
proof (induction comp' first last' xs rule: sort_range.induct)
  case (1 comp' first last' xs)
  note irr = "1.prems"(1) and tr = "1.prems"(2) and len = "1.prems"(3)
  show ?case
  proof (cases "last' \<le> first")
    case True
    then have "sort_range comp' first last' xs = xs"
      by (subst sort_range.simps) simp
    with True show ?thesis by simp
  next
    case False
    define size' where "size' = last' - first"
    define pivot_it where "pivot_it = first + size' div 2"
    define pivot where "pivot = xs ! pivot_it"
    define xs1 where "xs1 = (if pivot_it \<noteq> first then iter_swap xs first pivot_it else xs)"
    define scanned where "scanned = sort_scan comp' pivot first size' 1 1 xs1"
    define i where "i = fst scanned"
    define xs2 where "xs2 = iter_swap (snd scanned) first (first + (i - 1))"
    define xs3 where "xs3 = sort_range comp' first (first + (i - 1)) xs2"
    define xs4 where "xs4 = sort_range comp' (first + i) last' xs3"
    define p where "p = first + (i - 1)"
    have pos: "\<not> size' \<le> 0" using False by (simp add: size'_def)
    have res: "sort_range comp' first last' xs = xs4"
      unfolding xs4_def xs3_def xs2_def i_def scanned_def xs1_def pivot_def pivot_it_def size'_def
      using False by (subst sort_range.simps) (simp add: Let_def)
    from False have last: "last' = first + size'" and piv: "first \<le> pivot_it" "pivot_it < last'"
      by (simp_all add: size'_def pivot_it_def)
    \<comment> \<open>the pivot goes to the first slot\<close>
    have pw1: "permuted_within first last' xs xs1"
    proof (cases "pivot_it \<noteq> first")
      case True
      with piv False len show ?thesis
        unfolding xs1_def by (simp add: permuted_within_swap)
    next
      case False
      then show ?thesis by (simp add: xs1_def)
    qed
    have len1: "length xs1 = length xs" by (simp add: xs1_def)
    have p1: "xs1 ! first = pivot"
    proof (cases "pivot_it \<noteq> first")
      case True
      with piv len show ?thesis
        by (simp add: xs1_def pivot_def iter_swap_left)
    next
      case False
      then show ?thesis by (simp add: xs1_def pivot_def)
    qed
    \<comment> \<open>the scan\<close>
    obtain xs1' where sc: "sort_scan comp' pivot first size' 1 1 xs1 = (i, xs1')"
      by (cases "sort_scan comp' pivot first size' 1 1 xs1") (simp add: i_def scanned_def)
    have xs2: "xs2 = iter_swap xs1' first p"
      using sc by (simp add: xs2_def scanned_def p_def)
    from pos have "1 \<le> size'" by simp
    moreover from len len1 last have "first + size' \<le> length xs1" by simp
    ultimately have scan:
      "permuted_within (first + 1) (first + size') xs1 xs1' \<and> 1 \<le> i \<and> i \<le> size' \<and>
         (\<forall>k. 1 \<le> k \<and> k < i \<longrightarrow> comp' (xs1' ! (first + k)) pivot) \<and>
         (\<forall>k. i \<le> k \<and> k < size' \<longrightarrow> \<not> comp' (xs1' ! (first + k)) pivot)"
      by (intro sort_scan_partitions[OF sc]) simp_all
    then have pws: "permuted_within (first + 1) (first + size') xs1 xs1'"
      and i1: "1 \<le> i" and i2: "i \<le> size'"
      and low: "\<forall>k. 1 \<le> k \<and> k < i \<longrightarrow> comp' (xs1' ! (first + k)) pivot"
      and high: "\<forall>k. i \<le> k \<and> k < size' \<longrightarrow> \<not> comp' (xs1' ! (first + k)) pivot"
      by simp_all
    from pws have len1': "length xs1' = length xs" using len1 by (simp add: permuted_within_length)
    from permuted_within_outside[OF pws, of first] p1 have p1': "xs1' ! first = pivot" by simp
    from i1 i2 last have pb: "first \<le> p" "p < last'" "first + i = p + 1"
      by (simp_all add: p_def)
    \<comment> \<open>the pivot goes to the boundary\<close>
    have pw2: "permuted_within first last' xs1' xs2"
      unfolding xs2 using pb False len len1' by (intro permuted_within_swap) simp_all
    have len2: "length xs2 = length xs" using len1' by (simp add: xs2)
    have p2: "xs2 ! p = pivot"
      using pb len len1' p1' by (simp add: xs2 iter_swap_right)
    have low2: "comp' (xs2 ! k) pivot" if "first \<le> k" "k < p" for k
    proof (cases "k = first")
      case True
      from that have "1 \<le> i - 1 \<and> i - 1 < i" by (auto simp add: p_def)
      with low[rule_format, of "i - 1"] have "comp' (xs1' ! (first + (i - 1))) pivot" by simp
      moreover from True pb len len1' have "xs2 ! k = xs1' ! p"
        by (simp add: xs2 iter_swap_left)
      ultimately show ?thesis by (simp add: p_def)
    next
      case False
      with that have "1 \<le> k - first \<and> k - first < i" "first + (k - first) = k"
        by (auto simp add: p_def)
      with low[rule_format, of "k - first"] have "comp' (xs1' ! k) pivot" by simp
      moreover from False that have "xs2 ! k = xs1' ! k"
        by (simp add: xs2 iter_swap_other)
      ultimately show ?thesis by simp
    qed
    have high2: "\<not> comp' (xs2 ! k) pivot" if "p + 1 \<le> k" "k < last'" for k
    proof -
      from that pb last have "i \<le> k - first \<and> k - first < size'" "first + (k - first) = k"
        by auto
      with high[rule_format, of "k - first"] have "\<not> comp' (xs1' ! k) pivot" by simp
      moreover from that pb have "xs2 ! k = xs1' ! k"
        by (simp add: xs2 iter_swap_other)
      ultimately show ?thesis by simp
    qed
    \<comment> \<open>the two recursive calls\<close>
    from pb len len2 have lenp: "p \<le> length xs2" by simp
    from "1.IH"(1)[OF size'_def pos pivot_it_def pivot_def xs1_def scanned_def i_def xs2_def
        irr tr] lenp
    have pw3: "permuted_within first p xs2 xs3"
      and so3: "sorted_wrt (not_after comp') (range_values first p xs3)"
      by (simp_all add: xs3_def p_def)
    from pw3 len2 have len3: "length xs3 = length xs" by (simp add: permuted_within_length)
    with len have "last' \<le> length xs3" by simp
    from "1.IH"(2)[OF size'_def pos pivot_it_def pivot_def xs1_def scanned_def i_def xs2_def
        xs3_def irr tr this]
    have pw4: "permuted_within (p + 1) last' xs3 xs4"
      and so4: "sorted_wrt (not_after comp') (range_values (p + 1) last' xs4)"
      using pb by (simp_all add: xs4_def)
    from pw4 len3 have len4: "length xs4 = length xs" by (simp add: permuted_within_length)
    \<comment> \<open>the whole range\<close>
    have "permuted_within first last' xs1 xs1'"
      using last by (intro permuted_within_widen[OF pws]) simp_all
    note permuted_within_trans[OF pw1 this]
    note permuted_within_trans[OF this pw2]
    moreover have "permuted_within first last' xs2 xs3"
      using pb by (intro permuted_within_widen[OF pw3]) simp_all
    moreover have "permuted_within first last' xs3 xs4"
      using pb by (intro permuted_within_widen[OF pw4]) simp_all
    ultimately have perm: "permuted_within first last' xs xs4"
      by (rule permuted_within_trans[OF permuted_within_trans])
    have left: "range_values first p xs4 = range_values first p xs3"
    proof (rule range_values_agree)
      show "\<forall>k. first \<le> k \<and> k < p \<longrightarrow> xs4 ! k = xs3 ! k"
        using permuted_within_outside[OF pw4] by simp
    qed (use pb len len3 len4 in simp_all)
    have "set (range_values first p xs3) = set (range_values first p xs2)"
      using pw3 pb lenp by (intro permuted_within_set) simp_all
    also have "\<dots> = {xs2 ! k | k. first \<le> k \<and> k < p}"
      using lenp by (rule set_range_values)
    finally have lows: "\<forall>a\<in>set (range_values first p xs4). comp' a pivot"
      using low2 left by auto
    have "range_values (p + 1) last' xs3 = range_values (p + 1) last' xs2"
    proof (rule range_values_agree)
      show "\<forall>k. p + 1 \<le> k \<and> k < last' \<longrightarrow> xs3 ! k = xs2 ! k"
        using permuted_within_outside[OF pw3] by simp
    qed (use len len2 len3 in simp_all)
    moreover have "set (range_values (p + 1) last' xs4) = set (range_values (p + 1) last' xs3)"
      using pw4 pb len len3 by (intro permuted_within_set) simp_all
    moreover have "set (range_values (p + 1) last' xs2) = {xs2 ! k | k. p + 1 \<le> k \<and> k < last'}"
      using len len2 by (intro set_range_values) simp
    ultimately have highs: "\<forall>b\<in>set (range_values (p + 1) last' xs4). \<not> comp' b pivot"
      using high2 by auto
    have "xs4 ! p = xs3 ! p" using permuted_within_outside[OF pw4, of p] by simp
    also have "\<dots> = xs2 ! p" using permuted_within_outside[OF pw3, of p] by simp
    finally have mid: "xs4 ! p = pivot" using p2 by simp
    have "range_values first last' xs4 =
          range_values first p xs4 @ xs4 ! p # range_values (p + 1) last' xs4"
      using pb len len4 by (intro range_values_pivot) simp_all
    moreover have "sorted_wrt (not_after comp')
        (range_values first p xs4 @ pivot # range_values (p + 1) last' xs4)"
      using so3 by (intro sorted_around_pivot[OF irr tr _ so4 lows highs]) (simp add: left)
    ultimately have "sorted_wrt (not_after comp') (range_values first last' xs4)"
      using mid by simp
    with perm res show ?thesis by simp
  qed
qed

lemma strict_weak_order_irrefl: "strict_weak_order comp' \<Longrightarrow> \<forall>x. \<not> comp' x x"
  by (simp add: strict_weak_order_def)

lemma strict_weak_order_trans:
  "strict_weak_order comp' \<Longrightarrow> \<forall>x y z. comp' x y \<and> comp' y z \<longrightarrow> comp' x z"
  unfolding strict_weak_order_def by blast

lemma strict_weak_order_less: "strict_weak_order ((<) :: int comparator)"
  unfolding strict_weak_order_def by auto

lemma sorted_range_adjacent:
  assumes "sorted_wrt (not_after comp') (range_values first last' ys)" "last' \<le> length ys"
    and "first < k" "k < last'"
  shows "\<not> comp' (ys ! k) (ys ! (k - 1))"
proof -
  from assms(2-4) have "k - 1 - first < k - first" "k - first < length (range_values first last' ys)"
    by (simp_all add: length_range_values)
  with assms(1) have "not_after comp' (range_values first last' ys ! (k - 1 - first))
      (range_values first last' ys ! (k - first))"
    by (simp add: sorted_wrt_iff_nth_less)
  moreover from assms(2-4) have "range_values first last' ys ! (k - 1 - first) = ys ! (k - 1)"
    "range_values first last' ys ! (k - first) = ys ! k"
    by (simp_all add: nth_range_values)
  ultimately show ?thesis by (simp add: not_after_def)
qed

text \<open>
  C1: for a strict weak ordering \<open>comp'\<close> and a range \<open>[first, last')\<close> of the
  container, \<^verbatim>\<open>sort\<close> rearranges the range in place: the container keeps its length and
  every slot outside the range, the values of the range are a permutation of the
  original ones, no value of the range precedes the value of the slot before it, and
  indeed no value precedes any value of an earlier slot.
\<close>

theorem sort_sorts_range:
  assumes "strict_weak_order comp'" "first \<le> last'" "last' \<le> length xs"
  shows "length (sort_range comp' first last' xs) = length xs \<and>
         (\<forall>k. k < first \<or> last' \<le> k \<longrightarrow> sort_range comp' first last' xs ! k = xs ! k) \<and>
         mset (range_values first last' (sort_range comp' first last' xs)) =
           mset (range_values first last' xs) \<and>
         (\<forall>k. first < k \<and> k < last' \<longrightarrow>
            \<not> comp' (sort_range comp' first last' xs ! k)
                    (sort_range comp' first last' xs ! (k - 1))) \<and>
         sorted_wrt (not_after comp') (range_values first last' (sort_range comp' first last' xs))"
proof -
  let ?ys = "sort_range comp' first last' xs"
  from sort_range_sorts[OF strict_weak_order_irrefl[OF assms(1)]
      strict_weak_order_trans[OF assms(1)] assms(3), of first]
  have pw: "permuted_within first last' xs ?ys"
    and so: "sorted_wrt (not_after comp') (range_values first last' ?ys)"
    by simp_all
  from pw have len: "length ?ys = length xs"
    and out: "\<forall>k. k < first \<or> last' \<le> k \<longrightarrow> ?ys ! k = xs ! k"
    by (simp_all add: permuted_within_def)
  from permuted_within_mset[OF pw assms(2,3)]
  have ms: "mset (range_values first last' ?ys) = mset (range_values first last' xs)" .
  from len assms(3) have "last' \<le> length ?ys" by simp
  from sorted_range_adjacent[OF so this]
  have adj: "\<forall>k. first < k \<and> k < last' \<longrightarrow> \<not> comp' (?ys ! k) (?ys ! (k - 1))"
    by simp
  from len out ms adj so show ?thesis by simp
qed

theorem sort_sorts_range_witness:
  "strict_weak_order ((<) :: int comparator) \<and> (0::nat) \<le> 6 \<and>
   6 \<le> length [5, 3, 8, 1, 9, 2 :: int] \<and>
   length (sort_range (<) 0 6 [5, 3, 8, 1, 9, 2 :: int]) = length [5, 3, 8, 1, 9, 2 :: int] \<and>
   mset (range_values 0 6 (sort_range (<) 0 6 [5, 3, 8, 1, 9, 2 :: int])) =
     mset (range_values 0 6 [5, 3, 8, 1, 9, 2 :: int]) \<and>
   sorted_wrt (not_after (<)) (range_values 0 6 (sort_range (<) 0 6 [5, 3, 8, 1, 9, 2 :: int]))"
proof -
  have h2: "(0::nat) \<le> 6" and h3: "6 \<le> length [5, 3, 8, 1, 9, 2 :: int]" by simp_all
  from sort_sorts_range[OF strict_weak_order_less h2 h3] strict_weak_order_less h2 h3
  show ?thesis by blast
qed

lemma length_sort_scan:
  "sort_scan comp' pivot first size' j i xs = (i', xs') \<Longrightarrow> length xs' = length xs"
proof (induction comp' pivot first size' j i xs arbitrary: i' xs' rule: sort_scan.induct)
  case (1 comp' pivot first size' j i xs)
  note unfold = sort_scan.simps[of comp' pivot first size' j i xs]
  show ?case
  proof (cases "j < size'")
    case False
    with "1.prems" show ?thesis by (simp add: unfold)
  next
    case True
    show ?thesis
    proof (cases "comp' (xs ! (first + j)) pivot")
      case True
      with \<open>j < size'\<close> "1.prems" "1.IH"(1)[of i' xs'] show ?thesis
        by (simp add: unfold)
    next
      case False
      with \<open>j < size'\<close> "1.prems" "1.IH"(2)[of i' xs'] show ?thesis
        by (simp add: unfold)
    qed
  qed
qed

lemma length_sort_range: "length (sort_range comp' first last' xs) = length xs"
proof (induction comp' first last' xs rule: sort_range.induct)
  case (1 comp' first last' xs)
  show ?case
  proof (cases "last' \<le> first")
    case True
    then show ?thesis by (subst sort_range.simps) simp
  next
    case False
    define size' where "size' = last' - first"
    define pivot_it where "pivot_it = first + size' div 2"
    define pivot where "pivot = xs ! pivot_it"
    define xs1 where "xs1 = (if pivot_it \<noteq> first then iter_swap xs first pivot_it else xs)"
    define scanned where "scanned = sort_scan comp' pivot first size' 1 1 xs1"
    define i where "i = fst scanned"
    define xs2 where "xs2 = iter_swap (snd scanned) first (first + (i - 1))"
    define xs3 where "xs3 = sort_range comp' first (first + (i - 1)) xs2"
    define xs4 where "xs4 = sort_range comp' (first + i) last' xs3"
    have pos: "\<not> size' \<le> 0" using False by (simp add: size'_def)
    have res: "sort_range comp' first last' xs = xs4"
      unfolding xs4_def xs3_def xs2_def i_def scanned_def xs1_def pivot_def pivot_it_def size'_def
      using False by (subst sort_range.simps) (simp add: Let_def)
    have "length xs1 = length xs" by (simp add: xs1_def)
    moreover have "length (snd scanned) = length xs1"
      using length_sort_scan[of comp' pivot first size' 1 1 xs1 "fst scanned" "snd scanned"]
      by (simp add: scanned_def)
    ultimately have "length xs2 = length xs" by (simp add: xs2_def)
    with "1.IH"(1)[OF size'_def pos pivot_it_def pivot_def xs1_def scanned_def i_def xs2_def]
    have "length xs3 = length xs" by (simp add: xs3_def)
    with "1.IH"(2)[OF size'_def pos pivot_it_def pivot_def xs1_def scanned_def i_def xs2_def
        xs3_def]
    have "length xs4 = length xs" by (simp add: xs4_def)
    with res show ?thesis by simp
  qed
qed

text \<open>
  \<^verbatim>\<open>stable_sort\<close> sorts as \<^verbatim>\<open>sort\<close> does: what it lacks is stability only.
\<close>

lemma stable_sort_sorts:
  assumes "strict_weak_order comp'" "last' \<le> length xs"
  shows "permuted_within first last' xs (stable_sort comp' first last' xs) \<and>
         sorted_wrt (not_after comp') (range_values first last' (stable_sort comp' first last' xs))"
proof -
  note irr = strict_weak_order_irrefl[OF assms(1)] and tr = strict_weak_order_trans[OF assms(1)]
  have "(\<lambda>x y. comp' x y \<and> \<not> comp' y x) = comp'"
    using irr tr by (intro ext) blast
  then have "stable_sort comp' first last' xs = sort_range comp' first last' xs"
    by (simp add: stable_sort_def)
  with sort_range_sorts[OF irr tr assms(2), of first] show ?thesis by simp
qed

section \<open>Correctness of \<^verbatim>\<open>partial_sort\<close>\<close>

lemma partial_sort_min_least:
  assumes irr: "\<forall>x. \<not> comp' x x"
    and tr: "\<forall>x y z. comp' x y \<and> comp' y z \<longrightarrow> comp' x z"
    and "partial_sort_min comp' last' j min' xs = Some m"
    and "j \<le> last'"
    and "\<forall>k. lo \<le> k \<and> k < j \<longrightarrow> \<not> comp' (xs ! k) (xs ! min')"
  shows "\<forall>k. lo \<le> k \<and> k < last' \<longrightarrow> \<not> comp' (xs ! k) (xs ! m)"
  using assms(3-5)
proof (induction "last' - j" arbitrary: j min')
  case 0
  then have "j = last'" by simp
  with "0.prems"(1) have "m = min'" by (subst (asm) partial_sort_min.simps) simp
  with "0.prems"(3) \<open>j = last'\<close> show ?case by simp
next
  case (Suc d)
  then have lt: "j < last'" and d: "d = last' - (j + 1)" and le: "j + 1 \<le> last'"
    by simp_all
  let ?m = "if comp' (xs ! j) (xs ! min') then j else min'"
  from Suc.prems(1) lt have run: "partial_sort_min comp' last' (j + 1) ?m xs = Some m"
    by (subst (asm) partial_sort_min.simps) simp
  have "\<not> comp' (xs ! k) (xs ! ?m)" if "lo \<le> k" "k < j + 1" for k
  proof (cases "comp' (xs ! j) (xs ! min')")
    case True
    show ?thesis
    proof (cases "k = j")
      case True
      with \<open>comp' (xs ! j) (xs ! min')\<close> irr show ?thesis by simp
    next
      case False
      with that have "lo \<le> k \<and> k < j" by simp
      with Suc.prems(3) have "\<not> comp' (xs ! k) (xs ! min')" by blast
      with True tr have "\<not> comp' (xs ! k) (xs ! j)" by blast
      with True show ?thesis by simp
    qed
  next
    case False
    show ?thesis
    proof (cases "k = j")
      case True
      with False show ?thesis by simp
    next
      case neq: False
      with that have "lo \<le> k \<and> k < j" by simp
      with Suc.prems(3) have "\<not> comp' (xs ! k) (xs ! min')" by blast
      with False show ?thesis by simp
    qed
  qed
  then have "\<forall>k. lo \<le> k \<and> k < j + 1 \<longrightarrow> \<not> comp' (xs ! k) (xs ! ?m)" by blast
  from Suc.hyps(1)[OF d run le this] show ?case .
qed

lemma iter_swap_within:
  assumes "i \<le> m" "m < last'" "last' \<le> length xs" "i \<le> b" "b < last'"
  shows "\<exists>k. i \<le> k \<and> k < last' \<and> iter_swap xs i m ! b = xs ! k"
proof -
  consider "b = i" | "b = m" | "b \<noteq> i \<and> b \<noteq> m" by blast
  then show ?thesis
  proof cases
    case 1
    with assms have "iter_swap xs i m ! b = xs ! m" by (simp add: iter_swap_left)
    with assms show ?thesis by blast
  next
    case 2
    with assms have "iter_swap xs i m ! b = xs ! i" by (simp add: iter_swap_right)
    moreover from assms have "i \<le> i \<and> i < last'" by simp
    ultimately show ?thesis by blast
  next
    case 3
    then have "iter_swap xs i m ! b = xs ! b" by (simp add: iter_swap_other)
    with assms show ?thesis by blast
  qed
qed

lemma partial_sort_loop_sorts:
  assumes irr: "\<forall>x. \<not> comp' x x"
    and tr: "\<forall>x y z. comp' x y \<and> comp' y z \<longrightarrow> comp' x z"
    and "middle \<le> last'"
  shows "i \<le> middle \<Longrightarrow> last' \<le> length xs \<Longrightarrow>
         \<forall>a b. first \<le> a \<and> a < i \<and> a < b \<and> b < last' \<longrightarrow> \<not> comp' (xs ! b) (xs ! a) \<Longrightarrow>
         \<exists>ys. partial_sort_loop comp' middle last' i xs = Some ys \<and>
              permuted_within i last' xs ys \<and>
              (\<forall>a b. first \<le> a \<and> a < middle \<and> a < b \<and> b < last' \<longrightarrow>
                  \<not> comp' (ys ! b) (ys ! a))"
proof (induction "middle - i" arbitrary: i xs)
  case 0
  then have "i = middle" by simp
  with "0.prems"(3) show ?case by (subst partial_sort_loop.simps) simp
next
  case (Suc d)
  then have lt: "i < middle" and d: "d = middle - (i + 1)" and le: "i + 1 \<le> middle"
    by simp_all
  note len = Suc.prems(2) and inv = Suc.prems(3)
  from lt assms(3) have il: "i + 1 \<le> last'" by simp
  from partial_sort_min_result[OF il, of i i comp' xs] obtain m where
    m: "partial_sort_min comp' last' (i + 1) i xs = Some m" and mb: "i \<le> m" "m < last'"
    by auto
  have "\<forall>k. i \<le> k \<and> k < i + 1 \<longrightarrow> \<not> comp' (xs ! k) (xs ! i)"
    using irr by (auto simp add: le_less_Suc_eq)
  from partial_sort_min_least[OF irr tr m il this]
  have least: "\<forall>k. i \<le> k \<and> k < last' \<longrightarrow> \<not> comp' (xs ! k) (xs ! m)" .
  define xs' where "xs' = iter_swap xs i m"
  have same: "(if i \<noteq> m then iter_swap xs i m else xs) = xs'"
    by (simp add: xs'_def)
  from m lt have run: "partial_sort_loop comp' middle last' i xs =
      partial_sort_loop comp' middle last' (i + 1) xs'"
    by (subst partial_sort_loop.simps) (simp add: same)
  from il mb len have pw: "permuted_within i last' xs xs'"
    unfolding xs'_def by (intro permuted_within_swap) simp_all
  from len have len': "last' \<le> length xs'" by (simp add: xs'_def)
  have within: "\<exists>k. i \<le> k \<and> k < last' \<and> xs' ! b = xs ! k" if "i \<le> b" "b < last'" for b
    unfolding xs'_def using mb len that by (intro iter_swap_within) simp_all
  have inv': "\<not> comp' (xs' ! b) (xs' ! a)" if "first \<le> a" "a < i + 1" "a < b" "b < last'" for a b
  proof (cases "a = i")
    case True
    from that True mb len have "xs' ! a = xs ! m"
      by (simp add: xs'_def iter_swap_left)
    moreover from within[of b] that True obtain k where "i \<le> k \<and> k < last'" "xs' ! b = xs ! k"
      by auto
    ultimately show ?thesis using least by simp
  next
    case False
    with that have ai: "a < i" by simp
    with permuted_within_outside[OF pw, of a] have a: "xs' ! a = xs ! a" by simp
    show ?thesis
    proof (cases "b < i")
      case True
      with permuted_within_outside[OF pw, of b] have "xs' ! b = xs ! b" by simp
      with a inv that ai show ?thesis by simp
    next
      case False
      with within[of b] that obtain k where "i \<le> k \<and> k < last'" "xs' ! b = xs ! k"
        by auto
      moreover with ai that have "first \<le> a \<and> a < i \<and> a < k \<and> k < last'" by simp
      ultimately show ?thesis using a inv by simp
    qed
  qed
  then have "\<forall>a b. first \<le> a \<and> a < i + 1 \<and> a < b \<and> b < last' \<longrightarrow> \<not> comp' (xs' ! b) (xs' ! a)"
    by blast
  from Suc.hyps(1)[OF d le len' this] obtain ys where
    ys: "partial_sort_loop comp' middle last' (i + 1) xs' = Some ys"
    and pw': "permuted_within (i + 1) last' xs' ys"
    and post: "\<forall>a b. first \<le> a \<and> a < middle \<and> a < b \<and> b < last' \<longrightarrow> \<not> comp' (ys ! b) (ys ! a)"
    by blast
  have "permuted_within i last' xs' ys"
    by (intro permuted_within_widen[OF pw']) simp_all
  note permuted_within_trans[OF pw this]
  with ys run post show ?case by simp
qed

lemma sorted_range_values:
  assumes "\<forall>a b. first \<le> a \<and> a < b \<and> b < last' \<longrightarrow> \<not> comp' (ys ! b) (ys ! a)"
    and "last' \<le> length ys"
  shows "sorted_wrt (not_after comp') (range_values first last' ys)"
  unfolding sorted_wrt_iff_nth_less
proof (intro allI impI)
  fix a b assume ab: "a < b" "b < length (range_values first last' ys)"
  with assms(2) have b: "b < last' - first" and a: "a < last' - first"
    by (simp_all add: length_range_values)
  with ab have "first \<le> first + a \<and> first + a < first + b \<and> first + b < last'" by simp
  with assms(1) have "\<not> comp' (ys ! (first + b)) (ys ! (first + a))" by blast
  with a b assms(2) show "not_after comp' (range_values first last' ys ! a)
      (range_values first last' ys ! b)"
    by (simp add: not_after_def nth_range_values)
qed

text \<open>
  C4: for a strict weak ordering and positions \<open>first \<le> middle \<le> last'\<close> of the
  container, \<^verbatim>\<open>partial_sort\<close> returns; it rearranges the range in place, so that the
  values of \<open>[first, middle)\<close> and of \<open>[middle, last')\<close> together are the original values
  of the range; the prefix \<open>[first, middle)\<close> is non-decreasing; no value left in
  \<open>[middle, last')\<close> precedes a value of the prefix, which makes the prefix the
  \<open>middle - first\<close> smallest values; with \<open>middle = first\<close> nothing changes, and with
  \<open>middle = last'\<close> the whole range is non-decreasing.
\<close>

theorem partial_sort_smallest_prefix:
  assumes "strict_weak_order comp'" "first \<le> middle" "middle \<le> last'" "last' \<le> length xs"
  shows "\<exists>ys. partial_sort comp' first middle last' xs = Some ys \<and>
           length ys = length xs \<and>
           (\<forall>k. k < first \<or> last' \<le> k \<longrightarrow> ys ! k = xs ! k) \<and>
           mset (range_values first middle ys) + mset (range_values middle last' ys) =
             mset (range_values first last' xs) \<and>
           sorted_wrt (not_after comp') (range_values first middle ys) \<and>
           (\<forall>a\<in>set (range_values first middle ys).
              \<forall>b\<in>set (range_values middle last' ys). \<not> comp' b a) \<and>
           (middle = first \<longrightarrow> ys = xs) \<and>
           (middle = last' \<longrightarrow> sorted_wrt (not_after comp') (range_values first last' ys))"
proof -
  note irr = strict_weak_order_irrefl[OF assms(1)] and tr = strict_weak_order_trans[OF assms(1)]
  have "\<forall>a b. first \<le> a \<and> a < first \<and> a < b \<and> b < last' \<longrightarrow> \<not> comp' (xs ! b) (xs ! a)"
    by auto
  from partial_sort_loop_sorts[OF irr tr assms(3) assms(2) assms(4) this]
  obtain ys where ys: "partial_sort comp' first middle last' xs = Some ys"
    and pw: "permuted_within first last' xs ys"
    and post: "\<forall>a b. first \<le> a \<and> a < middle \<and> a < b \<and> b < last' \<longrightarrow> \<not> comp' (ys ! b) (ys ! a)"
    by (auto simp add: partial_sort_def)
  from pw have len: "length ys = length xs"
    and out: "\<forall>k. k < first \<or> last' \<le> k \<longrightarrow> ys ! k = xs ! k"
    by (simp_all add: permuted_within_def)
  from assms(2,3) have fl: "first \<le> last'" by simp
  from len assms(3,4) have lm: "middle \<le> length ys" and ll: "last' \<le> length ys" by simp_all
  have "range_values first last' ys = range_values first middle ys @ range_values middle last' ys"
    using assms(2,3) by (rule range_values_split)
  with permuted_within_mset[OF pw fl assms(4)]
  have ms: "mset (range_values first middle ys) + mset (range_values middle last' ys) =
      mset (range_values first last' xs)"
    by simp
  from post have "\<forall>a b. first \<le> a \<and> a < b \<and> b < middle \<longrightarrow> \<not> comp' (ys ! b) (ys ! a)"
    using assms(3) by auto
  from sorted_range_values[OF this lm]
  have so: "sorted_wrt (not_after comp') (range_values first middle ys)" .
  have cross: "\<forall>a\<in>set (range_values first middle ys).
      \<forall>b\<in>set (range_values middle last' ys). \<not> comp' b a"
  proof (intro ballI)
    fix a b
    assume "a \<in> set (range_values first middle ys)" "b \<in> set (range_values middle last' ys)"
    then obtain k l where "a = ys ! k" "first \<le> k" "k < middle" "b = ys ! l" "middle \<le> l" "l < last'"
      by (auto simp add: set_range_values[OF lm] set_range_values[OF ll])
    with post show "\<not> comp' b a" by simp
  qed
  have none: "ys = xs" if "middle = first"
    using ys that by (subst (asm) partial_sort_def, subst (asm) partial_sort_loop.simps) simp
  have all: "sorted_wrt (not_after comp') (range_values first last' ys)" if "middle = last'"
    using so that by simp
  from ys len out ms so cross none all show ?thesis by blast
qed

theorem partial_sort_smallest_prefix_witness:
  "strict_weak_order ((<) :: int comparator) \<and> (0::nat) \<le> 3 \<and> (3::nat) \<le> 6 \<and>
   6 \<le> length [5, 3, 8, 1, 9, 2 :: int] \<and>
   (\<exists>ys. partial_sort (<) 0 3 6 [5, 3, 8, 1, 9, 2 :: int] = Some ys \<and>
      ys = [1, 2, 3, 5, 9, 8] \<and>
      mset (range_values 0 3 ys) + mset (range_values 3 6 ys) =
        mset (range_values 0 6 [5, 3, 8, 1, 9, 2 :: int]) \<and>
      sorted_wrt (not_after (<)) (range_values 0 3 ys))"
proof -
  have h2: "(0::nat) \<le> 3" and h3: "(3::nat) \<le> 6"
    and h4: "6 \<le> length [5, 3, 8, 1, 9, 2 :: int]" by simp_all
  have e: "partial_sort (<) 0 3 6 [5, 3, 8, 1, 9, 2 :: int] = Some [1, 2, 3, 5, 9, 8]"
    by code_simp
  from partial_sort_smallest_prefix[OF strict_weak_order_less h2 h3 h4] e
  have "mset (range_values 0 3 [1, 2, 3, 5, 9, 8 :: int]) + mset (range_values 3 6 [1, 2, 3, 5, 9, 8]) =
        mset (range_values 0 6 [5, 3, 8, 1, 9, 2 :: int]) \<and>
      sorted_wrt (not_after (<)) (range_values 0 3 [1, 2, 3, 5, 9, 8 :: int])"
    by simp
  with e strict_weak_order_less h2 h3 h4 show ?thesis by simp
qed

section \<open>Correctness of \<^verbatim>\<open>partial_sort_copy\<close>\<close>

lemma copy_result:
  "result + length vs \<le> length xs \<Longrightarrow>
   copy vs result xs =
     (result + length vs, take result xs @ vs @ drop (result + length vs) xs)"
proof (induction vs arbitrary: result xs)
  case Nil
  then show ?case by simp
next
  case (Cons v vs)
  then have r: "result < length xs" and le: "(result + 1) + length vs \<le> length (xs[result := v])"
    by simp_all
  have t: "take (result + 1) (xs[result := v]) = take result xs @ [v]"
    using r by (simp add: take_Suc_conv_app_nth)
  have d: "drop (result + 1 + length vs) (xs[result := v]) = drop (result + 1 + length vs) xs"
    by simp
  from Cons.IH[OF le] t d show ?case by simp
qed

lemma written_range:
  assumes "ys = take r xs @ ws @ drop (r + length ws) xs" "r + length ws \<le> length xs"
  shows "length ys = length xs"
    and "\<forall>p. (p < r \<or> r + length ws \<le> p) \<and> p < length xs \<longrightarrow> ys ! p = xs ! p"
    and "range_values r (r + length ws) ys = ws"
proof -
  from assms show len: "length ys = length xs" by simp
  show "\<forall>p. (p < r \<or> r + length ws \<le> p) \<and> p < length xs \<longrightarrow> ys ! p = xs ! p"
  proof (intro allI impI)
    fix p assume a: "(p < r \<or> r + length ws \<le> p) \<and> p < length xs"
    then have pl: "p < length xs" by simp
    from a have "p < r \<or> r + length ws \<le> p" by simp
    then show "ys ! p = xs ! p"
    proof
      assume "p < r"
      with assms show ?thesis by (simp add: nth_append)
    next
      assume p: "r + length ws \<le> p"
      then have "\<not> p < r" "\<not> p - r < length ws" by simp_all
      with assms(2) have "ys ! p = drop (r + length ws) xs ! (p - r - length ws)"
        unfolding assms(1) by (simp add: nth_append)
      also from p pl have "\<dots> = xs ! p" by simp
      finally show ?thesis .
    qed
  qed
  from assms show "range_values r (r + length ws) ys = ws"
    by (simp add: range_values_def)
qed

lemma partial_sort_copy_result:
  assumes "first \<le> last'" "last' \<le> length xs"
    and "output_first \<le> output_last" "output_last \<le> length xs"
    and k: "k = min (last' - first) (output_last - output_first)"
  shows "partial_sort_copy comp' first last' output_first output_last xs =
           (output_first + k,
            take output_first xs @
            take k (sort_range comp' 0 (last' - first) (range_values first last' xs)) @
            drop (output_first + k) xs)"
proof -
  define vector where "vector = range_values first last' xs"
  define sorted' where "sorted' = sort_range comp' 0 (length vector) vector"
  define ws where "ws = (if distance first last' > distance output_first output_last
    then take (nat (distance output_first output_last)) sorted' else sorted')"
  have lv: "length vector = last' - first"
    using assms(2) by (simp add: vector_def length_range_values)
  have ls: "length sorted' = last' - first"
    by (simp add: sorted'_def length_sort_range lv)
  have gt: "distance first last' > distance output_first output_last \<longleftrightarrow>
      last' - first > output_last - output_first"
    using assms(1,3) by (auto simp add: distance_def)
  have nd: "nat (distance output_first output_last) = output_last - output_first"
    using assms(3) by (simp add: distance_def)
  have ws: "ws = take k sorted'"
    unfolding ws_def gt nd k using ls by (simp add: min_def)
  have lw: "length ws = k"
    unfolding ws using ls k by simp
  have run: "partial_sort_copy comp' first last' output_first output_last xs =
      copy ws output_first xs"
    by (simp add: partial_sort_copy_def Let_def ws_def sorted'_def vector_def)
  from k assms(3,4) have "output_first + length ws \<le> length xs"
    unfolding lw by simp
  from copy_result[OF this] run lw ws show ?thesis
    by (simp add: sorted'_def vector_def lv[unfolded vector_def])
qed

text \<open>
  C5: for a strict weak ordering, an input range \<open>[first, last')\<close> and an output range
  \<open>[output_first, output_last)\<close> of the store, with \<open>k\<close> the smaller of the two
  lengths: \<^verbatim>\<open>partial_sort_copy\<close> returns the position \<open>output_first + k\<close>; the \<open>k\<close>
  slots from \<open>output_first\<close> on hold the first \<open>k\<close> values of a non-decreasing
  permutation \<open>zs\<close> of the input values, that is its \<open>k\<close> smallest values in order;
  no other slot of the store is written; and when one of the ranges is empty nothing is
  written and \<open>output_first\<close> is returned.
\<close>

theorem partial_sort_copy_writes_smallest:
  assumes "strict_weak_order comp'"
    and "first \<le> last'" "last' \<le> length xs"
    and "output_first \<le> output_last" "output_last \<le> length xs"
    and k: "k = min (last' - first) (output_last - output_first)"
  shows "\<exists>zs ys. mset zs = mset (range_values first last' xs) \<and>
           sorted_wrt (not_after comp') zs \<and>
           partial_sort_copy comp' first last' output_first output_last xs =
             (output_first + k, ys) \<and>
           length ys = length xs \<and>
           (\<forall>p. (p < output_first \<or> output_first + k \<le> p) \<and> p < length xs \<longrightarrow>
                ys ! p = xs ! p) \<and>
           range_values output_first (output_first + k) ys = take k zs \<and>
           (last' = first \<or> output_last = output_first \<longrightarrow> k = 0 \<and> ys = xs)"
proof -
  define vector where "vector = range_values first last' xs"
  define zs where "zs = sort_range comp' 0 (last' - first) vector"
  define ys where "ys = take output_first xs @ take k zs @ drop (output_first + k) xs"
  have lv: "length vector = last' - first"
    using assms(3) by (simp add: vector_def length_range_values)
  then have "last' - first \<le> length vector" by simp
  from sort_range_sorts[OF strict_weak_order_irrefl[OF assms(1)]
      strict_weak_order_trans[OF assms(1)] this, of 0]
  have pw: "permuted_within 0 (last' - first) vector zs"
    and so: "sorted_wrt (not_after comp') (range_values 0 (last' - first) zs)"
    by (simp_all add: zs_def)
  from pw have ms: "mset zs = mset (range_values first last' xs)" and lz: "length zs = last' - first"
    by (simp_all add: permuted_within_def vector_def[symmetric] lv)
  from so lz have so': "sorted_wrt (not_after comp') zs"
    by (simp add: range_values_def)
  from partial_sort_copy_result[OF assms(2-6)]
  have run: "partial_sort_copy comp' first last' output_first output_last xs =
      (output_first + k, ys)"
    by (simp add: ys_def zs_def vector_def)
  from lz k have lt: "length (take k zs) = k" by simp
  from k assms(4,5) have cap: "output_first + length (take k zs) \<le> length xs"
    unfolding lt by simp
  have ys': "ys = take output_first xs @ take k zs @ drop (output_first + length (take k zs)) xs"
    unfolding lt by (simp add: ys_def)
  note w = written_range[OF ys' cap, unfolded lt]
  have empty: "k = 0 \<and> ys = xs" if "last' = first \<or> output_last = output_first"
  proof -
    from that k have "k = 0" by auto
    then show ?thesis by (simp add: ys_def)
  qed
  from ms so' run w empty show ?thesis by blast
qed

theorem partial_sort_copy_writes_smallest_witness:
  "strict_weak_order ((<) :: int comparator) \<and> (0::nat) \<le> 3 \<and>
   3 \<le> length [3, 1, 2, 0, 0, 0 :: int] \<and> (3::nat) \<le> 5 \<and>
   5 \<le> length [3, 1, 2, 0, 0, 0 :: int] \<and> (2::nat) = min (3 - 0) (5 - 3) \<and>
   partial_sort_copy (<) 0 3 3 5 [3, 1, 2, 0, 0, 0 :: int] = (5, [3, 1, 2, 1, 2, 0]) \<and>
   (\<exists>zs. mset zs = mset (range_values 0 3 [3, 1, 2, 0, 0, 0 :: int]) \<and>
      sorted_wrt (not_after (<)) zs \<and>
      range_values 3 (3 + 2) [3, 1, 2, 1, 2, 0 :: int] = take 2 zs)"
proof -
  have h2: "(0::nat) \<le> 3" and h3: "3 \<le> length [3, 1, 2, 0, 0, 0 :: int]"
    and h4: "(3::nat) \<le> 5" and h5: "5 \<le> length [3, 1, 2, 0, 0, 0 :: int]"
    and h6: "(2::nat) = min (3 - 0) (5 - 3)"
    by simp_all
  have e: "partial_sort_copy (<) 0 3 3 5 [3, 1, 2, 0, 0, 0 :: int] = (5, [3, 1, 2, 1, 2, 0])"
    by code_simp
  from partial_sort_copy_writes_smallest[OF strict_weak_order_less h2 h3 h4 h5 h6] e
  have "\<exists>zs. mset zs = mset (range_values 0 3 [3, 1, 2, 0, 0, 0 :: int]) \<and>
      sorted_wrt (not_after (<)) zs \<and>
      range_values 3 (3 + 2) [3, 1, 2, 1, 2, 0 :: int] = take 2 zs"
    by auto
  with strict_weak_order_less h2 h3 h4 h5 h6 e show ?thesis by blast
qed

text \<open>
  C6, as amended: when the \<open>k\<close> slots that are written, \<open>[output_first, output_first + k)\<close>,
  share no position with the input range \<open>[first, last')\<close> (as when the output range
  lies in another container, or when nothing is written because one of the ranges is
  empty), \<^verbatim>\<open>partial_sort_copy\<close> leaves every value of the input range unchanged,
  whatever the comparator.
\<close>

theorem partial_sort_copy_keeps_disjoint_input:
  assumes "first \<le> last'" "last' \<le> length xs"
    and "output_first \<le> output_last" "output_last \<le> length xs"
    and k: "k = min (last' - first) (output_last - output_first)"
    and disjoint: "{first..<last'} \<inter> {output_first..<output_first + k} = {}"
  shows "(\<forall>p. first \<le> p \<and> p < last' \<longrightarrow>
            snd (partial_sort_copy comp' first last' output_first output_last xs) ! p = xs ! p) \<and>
         range_values first last'
           (snd (partial_sort_copy comp' first last' output_first output_last xs)) =
         range_values first last' xs"
proof -
  define ws where "ws = take k (sort_range comp' 0 (last' - first) (range_values first last' xs))"
  define ys where "ys = take output_first xs @ ws @ drop (output_first + length ws) xs"
  have "length (range_values first last' xs) = last' - first"
    using assms(2) by (simp add: length_range_values)
  with k have lw: "length ws = k"
    by (simp add: ws_def length_sort_range)
  from partial_sort_copy_result[OF assms(1-5)]
  have run: "snd (partial_sort_copy comp' first last' output_first output_last xs) = ys"
    by (simp add: ys_def ws_def[symmetric] lw)
  from k assms(3,4) have cap: "output_first + length ws \<le> length xs"
    unfolding lw by simp
  note w = written_range[OF ys_def cap, unfolded lw]
  have same: "\<forall>p. first \<le> p \<and> p < last' \<longrightarrow> ys ! p = xs ! p"
  proof (intro allI impI)
    fix p assume p: "first \<le> p \<and> p < last'"
    then have "p \<in> {first..<last'}" by simp
    with disjoint have "p \<notin> {output_first..<output_first + k}" by blast
    then have "p < output_first \<or> output_first + k \<le> p" by auto
    moreover from p assms(2) have "p < length xs" by simp
    ultimately show "ys ! p = xs ! p" using w(2) by blast
  qed
  moreover from same assms(2) w(1) have "range_values first last' ys = range_values first last' xs"
    by (intro range_values_agree) simp_all
  ultimately show ?thesis unfolding run by blast
qed

text \<open>
  Two instances: an output range behind the input range, and an empty output range
  that starts inside the input range, where nothing is written.
\<close>

theorem partial_sort_copy_keeps_disjoint_input_witness:
  "(0::nat) \<le> 3 \<and> 3 \<le> length [3, 1, 2, 0, 0, 0 :: int] \<and> (3::nat) \<le> 5 \<and>
   5 \<le> length [3, 1, 2, 0, 0, 0 :: int] \<and> (2::nat) = min (3 - 0) (5 - 3) \<and>
   {0..<3} \<inter> {3..<3 + 2} = ({} :: nat set) \<and>
   range_values 0 3 (snd (partial_sort_copy (<) 0 3 3 5 [3, 1, 2, 0, 0, 0 :: int])) =
   range_values 0 3 [3, 1, 2, 0, 0, 0 :: int] \<and>
   3 \<le> length [3, 1, 2 :: int] \<and> (1::nat) \<le> 1 \<and> 1 \<le> length [3, 1, 2 :: int] \<and>
   (0::nat) = min (3 - 0) (1 - 1) \<and> {0..<3} \<inter> {1..<1 + 0} = ({} :: nat set) \<and>
   range_values 0 3 (snd (partial_sort_copy (<) 0 3 1 1 [3, 1, 2 :: int])) =
   range_values 0 3 [3, 1, 2 :: int]"
proof -
  have h2: "(0::nat) \<le> 3" and h3: "3 \<le> length [3, 1, 2, 0, 0, 0 :: int]"
    and h4: "(3::nat) \<le> 5" and h5: "5 \<le> length [3, 1, 2, 0, 0, 0 :: int]"
    and h6: "(2::nat) = min (3 - 0) (5 - 3)"
    and h7: "{0..<3} \<inter> {3..<3 + 2} = ({} :: nat set)"
    by auto
  have g3: "3 \<le> length [3, 1, 2 :: int]" and g4: "(1::nat) \<le> 1"
    and g5: "1 \<le> length [3, 1, 2 :: int]" and g6: "(0::nat) = min (3 - 0) (1 - 1)"
    and g7: "{0..<3} \<inter> {1..<1 + 0} = ({} :: nat set)"
    by auto
  note a = partial_sort_copy_keeps_disjoint_input[OF h2 h3 h4 h5 h6 h7, of "(<)"]
  note b = partial_sort_copy_keeps_disjoint_input[OF h2 g3 g4 g5 g6 g7, of "(<)"]
  from a b h2 h3 h4 h5 h6 h7 g3 g4 g5 g6 g7 show ?thesis by blast
qed

text \<open>
  C6, as stated, fails when the output range is the input range itself: the sorted
  copy is written over the input, and its first value changes from 3 to 1.
\<close>

theorem partial_sort_copy_overlap_changes_input:
  "snd (partial_sort_copy (<) 0 3 0 3 [3, 1, 2 :: int]) ! 0 \<noteq> [3, 1, 2 :: int] ! 0"
  by code_simp

end
